theory Spec2Isabelle
  imports Main "HOL-Library.Word" "HOL-Library.Sublist" "HOL-Library.AList"
begin

unbundle bit_operations_syntax

section \<open>The file system\<close>

text \<open>
  \<^verbatim>\<open>Main.py\<close> works on one file system through \<^verbatim>\<open>os\<close>, \<^verbatim>\<open>shutil\<close> and \<^verbatim>\<open>open\<close>.
  The file system is a finite tree: a regular file holds its bytes and a modification time,
  a directory holds named children.  A path is the list of its components, so
  \<^verbatim>\<open>os.path.join(source, item)\<close> is \<open>source @ [item]\<close>.  Source, replica and log file
  are three paths into the same tree, so that one may lie inside another, as the program
  allows.

  A directory is an association list read with \<open>map_of\<close> and written with
  \<open>AList.update\<close> and \<open>AList.delete\<close>; a name is bound at most once as far as any
  operation can see.  Symbolic links, permissions and I/O faults are not modelled.
\<close>

type_synonym byte = "8 word"
type_synonym path = "string list"

datatype node = File (content: "byte list") (mtime: nat) | Dir (children: "(string \<times> node) list")

fun lookup :: "node \<Rightarrow> path \<Rightarrow> node option" where
  "lookup t [] = Some t"
| "lookup t (x # p) =
     (case t of
        File c m \<Rightarrow> None
      | Dir es \<Rightarrow> (case map_of es x of None \<Rightarrow> None | Some n \<Rightarrow> lookup n p))"

text \<open>What a path shows to an observer: nothing, a regular file with its bytes, or a directory.\<close>

datatype entry = Absent | Regular "byte list" | Directory

definition view :: "node \<Rightarrow> path \<Rightarrow> entry" where
  "view t p =
     (case lookup t p of None \<Rightarrow> Absent | Some (File c m) \<Rightarrow> Regular c | Some (Dir es) \<Rightarrow> Directory)"

text \<open>
  \<open>bind_at p v t\<close> rebinds the last component of \<open>p\<close> in its parent directory: to the node
  \<open>n\<close> for \<open>v = Some n\<close>, to nothing for \<open>v = None\<close>.  It leaves the tree alone when the
  parent is not a directory; the operations below raise before they get there.
\<close>

fun bind_at :: "path \<Rightarrow> node option \<Rightarrow> node \<Rightarrow> node" where
  "bind_at [] v t = t"
| "bind_at (x # p) v t =
     (case t of
        File c m \<Rightarrow> File c m
      | Dir es \<Rightarrow>
          (if p = [] then
             (case v of None \<Rightarrow> Dir (AList.delete x es) | Some n \<Rightarrow> Dir (AList.update x n es))
           else
             (case map_of es x of
                None \<Rightarrow> Dir es
              | Some c \<Rightarrow> Dir (AList.update x (bind_at p v c) es))))"

datatype error =
    FileNotFoundError path
  | NotADirectoryError path
  | IsADirectoryError path
  | FileExistsError path
  | SameFileError path
  | OSError path
  | RecursionError

text \<open>
  Opening a path that does not resolve: \<^verbatim>\<open>ENOTDIR\<close> when a proper prefix of the path is a
  regular file, \<^verbatim>\<open>ENOENT\<close> otherwise.
\<close>

definition no_entry :: "node \<Rightarrow> path \<Rightarrow> error" where
  "no_entry t p =
     (if list_ex (\<lambda>q. case lookup t q of Some (File c m) \<Rightarrow> True | _ \<Rightarrow> False) (prefixes p)
      then NotADirectoryError p else FileNotFoundError p)"

subsection \<open>\<^verbatim>\<open>os.listdir\<close>, \<^verbatim>\<open>os.path.isdir\<close>, \<^verbatim>\<open>os.path.exists\<close>, \<^verbatim>\<open>open(..., "rb")\<close>\<close>

definition listdir :: "node \<Rightarrow> path \<Rightarrow> error + string list" where
  "listdir t p =
     (case lookup t p of
        None \<Rightarrow> Inl (no_entry t p)
      | Some (File c m) \<Rightarrow> Inl (NotADirectoryError p)
      | Some (Dir es) \<Rightarrow> Inr (map fst es))"

definition isdir :: "node \<Rightarrow> path \<Rightarrow> bool" where
  "isdir t p = (case lookup t p of Some (Dir es) \<Rightarrow> True | _ \<Rightarrow> False)"

definition path_exists :: "node \<Rightarrow> path \<Rightarrow> bool" where
  "path_exists t p = (lookup t p \<noteq> None)"

definition open_rb :: "node \<Rightarrow> path \<Rightarrow> error + byte list \<times> nat" where
  "open_rb t p =
     (case lookup t p of
        None \<Rightarrow> Inl (no_entry t p)
      | Some (Dir es) \<Rightarrow> Inl (IsADirectoryError p)
      | Some (File c m) \<Rightarrow> Inr (c, m))"

subsection \<open>\<^verbatim>\<open>shutil.copytree\<close>, \<^verbatim>\<open>shutil.copy2\<close>, \<^verbatim>\<open>shutil.rmtree\<close>, \<^verbatim>\<open>os.remove\<close>\<close>

text \<open>
  \<^verbatim>\<open>os.makedirs(dst)\<close>, the first thing \<^verbatim>\<open>copytree\<close> does: it creates \<open>dst\<close> and every
  missing ancestor as an empty directory, and raises when \<open>dst\<close> is there already.
\<close>

fun makedirs :: "path \<Rightarrow> path \<Rightarrow> node \<Rightarrow> error + node" where
  "makedirs full [] t = Inl (FileExistsError full)"
| "makedirs full (x # p) t =
     (case t of
        File c m \<Rightarrow> Inl (NotADirectoryError full)
      | Dir es \<Rightarrow>
          (case map_of es x of
             None \<Rightarrow>
               (if p = [] then Inr (Dir (AList.update x (Dir []) es))
                else (case makedirs full p (Dir []) of
                        Inl e \<Rightarrow> Inl e
                      | Inr c \<Rightarrow> Inr (Dir (AList.update x c es))))
           | Some c \<Rightarrow>
               (case makedirs full p c of
                  Inl e \<Rightarrow> Inl e
                | Inr c' \<Rightarrow> Inr (Dir (AList.update x c' es)))))"

text \<open>
  \<^verbatim>\<open>shutil.copytree(src, dst)\<close> lists \<open>src\<close>, creates \<open>dst\<close> and copies every descendant
  with \<^verbatim>\<open>copy2\<close>: afterwards \<open>dst\<close> is a deep copy of \<open>src\<close>.  When \<open>dst\<close> lies deeper
  inside \<open>src\<close> than a direct child, the library descends into its own output until the
  system refuses the path; the model raises there and does not describe the partial copy.
\<close>

definition copytree :: "path \<Rightarrow> path \<Rightarrow> node \<Rightarrow> error + node" where
  "copytree src dst t =
     (case lookup t src of
        None \<Rightarrow> Inl (no_entry t src)
      | Some (File c m) \<Rightarrow> Inl (NotADirectoryError src)
      | Some (Dir es) \<Rightarrow>
          (if strict_prefix src (butlast dst) then Inl (OSError dst)
           else (case makedirs dst dst t of
                   Inl e \<Rightarrow> Inl e
                 | Inr t' \<Rightarrow> Inr (bind_at dst (Some (Dir es)) t'))))"

text \<open>
  \<^verbatim>\<open>shutil.copy2(src, dst)\<close>: a directory \<open>dst\<close> stands for \<open>dst/basename(src)\<close>; the
  source is opened for reading, then the destination for writing; bytes and modification
  time are copied.
\<close>

definition copy2 :: "path \<Rightarrow> path \<Rightarrow> node \<Rightarrow> error + node" where
  "copy2 src dst t =
     (let dst' = (if isdir t dst \<and> src \<noteq> [] then dst @ [last src] else dst) in
      if src = dst' \<and> path_exists t src then Inl (SameFileError src)
      else
        (case open_rb t src of
           Inl e \<Rightarrow> Inl e
         | Inr (c, m) \<Rightarrow>
             (if isdir t dst' then Inl (IsADirectoryError dst')
              else if \<not> isdir t (butlast dst') then Inl (no_entry t dst')
              else Inr (bind_at dst' (Some (File c m)) t))))"

definition rmtree :: "path \<Rightarrow> node \<Rightarrow> error + node" where
  "rmtree p t =
     (case lookup t p of
        None \<Rightarrow> Inl (no_entry t p)
      | Some (File c m) \<Rightarrow> Inl (NotADirectoryError p)
      | Some (Dir es) \<Rightarrow> (if p = [] then Inl (OSError p) else Inr (bind_at p None t)))"

definition remove :: "path \<Rightarrow> node \<Rightarrow> error + node" where
  "remove p t =
     (case lookup t p of
        None \<Rightarrow> Inl (no_entry t p)
      | Some (Dir es) \<Rightarrow> Inl (IsADirectoryError p)
      | Some (File c m) \<Rightarrow> Inr (bind_at p None t))"

section \<open>MD5, as \<^verbatim>\<open>hashlib.md5\<close> computes it\<close>

type_synonym u32 = "32 word"
type_synonym md5_regs = "u32 \<times> u32 \<times> u32 \<times> u32"
type_synonym md5_state = "md5_regs \<times> byte list \<times> nat"

definition md5_K :: "u32 list" where
  "md5_K = [
    0xd76aa478, 0xe8c7b756, 0x242070db, 0xc1bdceee, 0xf57c0faf, 0x4787c62a, 0xa8304613, 0xfd469501,
    0x698098d8, 0x8b44f7af, 0xffff5bb1, 0x895cd7be, 0x6b901122, 0xfd987193, 0xa679438e, 0x49b40821,
    0xf61e2562, 0xc040b340, 0x265e5a51, 0xe9b6c7aa, 0xd62f105d, 0x02441453, 0xd8a1e681, 0xe7d3fbc8,
    0x21e1cde6, 0xc33707d6, 0xf4d50d87, 0x455a14ed, 0xa9e3e905, 0xfcefa3f8, 0x676f02d9, 0x8d2a4c8a,
    0xfffa3942, 0x8771f681, 0x6d9d6122, 0xfde5380c, 0xa4beea44, 0x4bdecfa9, 0xf6bb4b60, 0xbebfbc70,
    0x289b7ec6, 0xeaa127fa, 0xd4ef3085, 0x04881d05, 0xd9d4d039, 0xe6db99e5, 0x1fa27cf8, 0xc4ac5665,
    0xf4292244, 0x432aff97, 0xab9423a7, 0xfc93a039, 0x655b59c3, 0x8f0ccc92, 0xffeff47d, 0x85845dd1,
    0x6fa87e4f, 0xfe2ce6e0, 0xa3014314, 0x4e0811a1, 0xf7537e82, 0xbd3af235, 0x2ad7d2bb, 0xeb86d391]"

definition md5_S :: "nat list" where
  "md5_S = [
    7, 12, 17, 22, 7, 12, 17, 22, 7, 12, 17, 22, 7, 12, 17, 22,
    5, 9, 14, 20, 5, 9, 14, 20, 5, 9, 14, 20, 5, 9, 14, 20,
    4, 11, 16, 23, 4, 11, 16, 23, 4, 11, 16, 23, 4, 11, 16, 23,
    6, 10, 15, 21, 6, 10, 15, 21, 6, 10, 15, 21, 6, 10, 15, 21]"

definition rotl32 :: "u32 \<Rightarrow> nat \<Rightarrow> u32" where
  "rotl32 x n = push_bit n x OR drop_bit (32 - n) x"

definition le_word :: "byte list \<Rightarrow> u32" where
  "le_word bs = foldr (\<lambda>b w. ucast b OR push_bit 8 w) bs 0"

fun block_words :: "nat \<Rightarrow> byte list \<Rightarrow> u32 list" where
  "block_words 0 bs = []"
| "block_words (Suc n) bs = le_word (take 4 bs) # block_words n (drop 4 bs)"

definition md5_step :: "u32 list \<Rightarrow> md5_regs \<Rightarrow> nat \<Rightarrow> md5_regs" where
  "md5_step m r i =
     (case r of (a, b, c, d) \<Rightarrow>
        let (f, g) =
          (if i < 16 then ((b AND c) OR (NOT b AND d), i)
           else if i < 32 then ((d AND b) OR (NOT d AND c), (5 * i + 1) mod 16)
           else if i < 48 then (b XOR c XOR d, (3 * i + 5) mod 16)
           else (c XOR (b OR NOT d), (7 * i) mod 16));
          f' = f + a + md5_K ! i + m ! g
        in (d, b + rotl32 f' (md5_S ! i), b, c))"

definition md5_compress :: "md5_regs \<Rightarrow> byte list \<Rightarrow> md5_regs" where
  "md5_compress h blk =
     (case h of (a0, b0, c0, d0) \<Rightarrow>
        case foldl (md5_step (block_words 16 blk)) h [0..<64] of (a, b, c, d) \<Rightarrow>
          (a0 + a, b0 + b, c0 + c, d0 + d))"

function md5_blocks :: "md5_regs \<Rightarrow> byte list \<Rightarrow> md5_regs \<times> byte list" where
  "md5_blocks h bs =
     (if length bs < 64 then (h, bs)
      else md5_blocks (md5_compress h (take 64 bs)) (drop 64 bs))"
  by pat_completeness auto
termination
  by (relation "measure (\<lambda>(h, bs). length bs)") auto

declare md5_blocks.simps [simp del]

text \<open>The hash object: chaining value, bytes not yet in a full block, bytes seen so far.\<close>

definition md5_new :: md5_state where
  "md5_new = ((0x67452301, 0xefcdab89, 0x98badcfe, 0x10325476), [], 0)"

definition md5_update :: "md5_state \<Rightarrow> byte list \<Rightarrow> md5_state" where
  "md5_update st data =
     (case st of (h, buf, n) \<Rightarrow>
        case md5_blocks h (buf @ data) of (h', r) \<Rightarrow> (h', r, n + length data))"

definition le_bytes :: "nat \<Rightarrow> 'a::len word \<Rightarrow> byte list" where
  "le_bytes k v = map (\<lambda>i. ucast (drop_bit (8 * i) v)) [0..<k]"

definition md5_padding :: "nat \<Rightarrow> byte list" where
  "md5_padding n =
     0x80 # replicate ((119 - n mod 64) mod 64) 0 @ le_bytes 8 (of_nat (8 * n) :: 64 word)"

definition hex_digit :: "nat \<Rightarrow> char" where
  "hex_digit k = ''0123456789abcdef'' ! k"

definition hex_byte :: "byte \<Rightarrow> string" where
  "hex_byte b = [hex_digit (unat b div 16), hex_digit (unat b mod 16)]"

definition md5_hexdigest :: "md5_state \<Rightarrow> string" where
  "md5_hexdigest st =
     (case st of (h, buf, n) \<Rightarrow>
        case fst (md5_blocks h (buf @ md5_padding n)) of (a, b, c, d) \<Rightarrow>
          concat (map hex_byte (concat (map (le_bytes 4) [a, b, c, d]))))"

text \<open>The MD5 digest of a byte string given at once.\<close>

definition md5_hex :: "byte list \<Rightarrow> string" where
  "md5_hex bs = md5_hexdigest (md5_update md5_new bs)"

section \<open>\<^verbatim>\<open>Main.py\<close>\<close>

subsection \<open>\<^verbatim>\<open>calculate_md5\<close>\<close>

text \<open>\<^verbatim>\<open>iter(lambda: f.read(4096), b"")\<close>: the chunks of the file, up to the first empty read.\<close>

function read_chunks :: "nat \<Rightarrow> byte list \<Rightarrow> byte list list" where
  "read_chunks k bs =
     (if bs = [] \<or> k = 0 then [] else take k bs # read_chunks k (drop k bs))"
  by pat_completeness auto
termination
  by (relation "measure (\<lambda>(k, bs). length bs)") auto

declare read_chunks.simps [simp del]

definition calculate_md5 :: "node \<Rightarrow> path \<Rightarrow> error + string" where
  "calculate_md5 t file_path =
     (case open_rb t file_path of
        Inl e \<Rightarrow> Inl e
      | Inr (c, m) \<Rightarrow> Inr (md5_hexdigest (foldl md5_update md5_new (read_chunks 4096 c))))"

subsection \<open>\<^verbatim>\<open>log_operation\<close>\<close>

text \<open>
  \<^verbatim>\<open>log_operation\<close> prints one time-stamped line and appends it to the file at
  \<^verbatim>\<open>log_file\<close>, a path into the same file system as the source and the replica.

  What has been printed is the field \<open>log\<close> of the state: the sequence of messages, one
  constructor per message text, with the path the message names: \<^verbatim>\<open>Directory created\<close>,
  \<^verbatim>\<open>File copied/updated\<close>, \<^verbatim>\<open>Directory removed\<close>, \<^verbatim>\<open>File removed\<close>.

  The wall clock is a parameter: \<open>clock k\<close> is the time at which the line after \<open>k\<close> printed
  lines is logged, as the modification time a write leaves and as
  \<^verbatim>\<open>strftime('%Y-%m-%d %H:%M:%S')\<close> renders it.
\<close>

datatype operation =
    DirectoryCreated path
  | FileCopied path
  | DirectoryRemoved path
  | FileRemoved path

record state =
  fs :: node
  log :: "operation list"

type_synonym clock = "nat \<Rightarrow> nat \<times> string"

definition path_text :: "path \<Rightarrow> string" where
  "path_text p = concat (map (\<lambda>x. CHR ''/'' # x) p)"

fun message_text :: "operation \<Rightarrow> string" where
  "message_text (DirectoryCreated p) = ''Directory created: '' @ path_text p"
| "message_text (FileCopied p) = ''File copied/updated: '' @ path_text p"
| "message_text (DirectoryRemoved p) = ''Directory removed: '' @ path_text p"
| "message_text (FileRemoved p) = ''File removed: '' @ path_text p"

definition encode :: "string \<Rightarrow> byte list" where
  "encode cs = map of_char cs"

text \<open>
  \<^verbatim>\<open>open(p, 'a')\<close> and one \<^verbatim>\<open>write\<close>: the file is created when it is missing and its
  directory is there, extended when it is a regular file; a directory cannot be opened for
  writing.
\<close>

definition append_to :: "path \<Rightarrow> byte list \<Rightarrow> nat \<Rightarrow> node \<Rightarrow> error + node" where
  "append_to p bs now t =
     (case lookup t p of
        None \<Rightarrow>
          (if isdir t (butlast p) then Inr (bind_at p (Some (File bs now)) t)
           else Inl (no_entry t p))
      | Some (Dir es) \<Rightarrow> Inl (IsADirectoryError p)
      | Some (File c m) \<Rightarrow> Inr (bind_at p (Some (File (c @ bs) now)) t))"

text \<open>
  A run ends normally (\<open>None\<close>) or with the exception that escaped (\<open>Some e\<close>); either way
  the file system and the log are what the run made of them up to that point.
\<close>

type_synonym outcome = "error option \<times> state"

definition log_operation :: "clock \<Rightarrow> operation \<Rightarrow> path \<Rightarrow> state \<Rightarrow> outcome" where
  "log_operation clock message log_file s =
     (let (now, timestamp) = clock (length (log s));
          log_message = ''['' @ timestamp @ ''] '' @ message_text message;
          printed = s\<lparr>log := log s @ [message]\<rparr>
      in case append_to log_file (encode (log_message @ [CHR 0x0A])) now (fs s) of
           Inl e \<Rightarrow> (Some e, printed)
         | Inr t \<Rightarrow> (None, printed\<lparr>fs := t\<rparr>))"

subsection \<open>\<^verbatim>\<open>sync_folders\<close>\<close>

text \<open>A \<^verbatim>\<open>for\<close> loop with no \<^verbatim>\<open>try\<close> around its body: the first exception ends it.\<close>

fun for_each :: "('a \<Rightarrow> state \<Rightarrow> outcome) \<Rightarrow> 'a list \<Rightarrow> state \<Rightarrow> outcome" where
  "for_each body [] s = (None, s)"
| "for_each body (x # xs) s =
     (case body x s of
        (Some e, s') \<Rightarrow> (Some e, s')
      | (None, s') \<Rightarrow> for_each body xs s')"

text \<open>
  The body of the first loop (lines 41 to 54); \<open>self\<close> is the recursive call of line 50.
\<close>

definition sync_item ::
  "clock \<Rightarrow> (path \<Rightarrow> path \<Rightarrow> path \<Rightarrow> state \<Rightarrow> outcome) \<Rightarrow>
   path \<Rightarrow> path \<Rightarrow> path \<Rightarrow> string \<Rightarrow> state \<Rightarrow> outcome" where
  "sync_item clock self source replica log_file item s =
     (let source_item = source @ [item]; replica_item = replica @ [item] in
      if isdir (fs s) source_item then
        (if \<not> path_exists (fs s) replica_item then
           (case copytree source_item replica_item (fs s) of
              Inl e \<Rightarrow> (Some e, s)
            | Inr t \<Rightarrow> log_operation clock (DirectoryCreated replica_item) log_file (s\<lparr>fs := t\<rparr>))
         else self source_item replica_item log_file s)
      else
        (let copy = (case copy2 source_item replica_item (fs s) of
                       Inl e \<Rightarrow> (Some e, s)
                     | Inr t \<Rightarrow> log_operation clock (FileCopied replica_item) log_file (s\<lparr>fs := t\<rparr>))
         in
         if \<not> path_exists (fs s) replica_item then copy
         else
           (case calculate_md5 (fs s) source_item of
              Inl e \<Rightarrow> (Some e, s)
            | Inr h1 \<Rightarrow>
                (case calculate_md5 (fs s) replica_item of
                   Inl e \<Rightarrow> (Some e, s)
                 | Inr h2 \<Rightarrow> (if h1 \<noteq> h2 then copy else (None, s))))))"

text \<open>The body of the second loop (lines 57 to 67).\<close>

definition prune_item ::
  "clock \<Rightarrow> string list \<Rightarrow> path \<Rightarrow> path \<Rightarrow> string \<Rightarrow> state \<Rightarrow> outcome" where
  "prune_item clock source_files replica log_file item s =
     (let replica_item = replica @ [item] in
      if item \<notin> set source_files then
        (if isdir (fs s) replica_item then
           (case rmtree replica_item (fs s) of
              Inl e \<Rightarrow> (Some e, s)
            | Inr t \<Rightarrow> log_operation clock (DirectoryRemoved replica_item) log_file (s\<lparr>fs := t\<rparr>))
         else
           (case remove replica_item (fs s) of
              Inl e \<Rightarrow> (Some e, s)
            | Inr t \<Rightarrow> log_operation clock (FileRemoved replica_item) log_file (s\<lparr>fs := t\<rparr>)))
      else (None, s))"

text \<open>
  \<^verbatim>\<open>set(os.listdir(d))\<close> is iterated in an order the program does not choose.  The order is a
  parameter \<open>ord\<close>: it turns a listing into the sequence the loop visits, each name once.
\<close>

definition iteration_order :: "(string list \<Rightarrow> string list) \<Rightarrow> bool" where
  "iteration_order ord = (\<forall>xs. set (ord xs) = set xs \<and> distinct (ord xs))"

text \<open>
  \<open>sync_folders ord clock depth source replica log_file\<close>: \<open>depth\<close> is how many nested
  invocations the interpreter still allows; a call beyond it raises \<^verbatim>\<open>RecursionError\<close>.
\<close>

primrec sync_folders ::
  "(string list \<Rightarrow> string list) \<Rightarrow> clock \<Rightarrow> nat \<Rightarrow> path \<Rightarrow> path \<Rightarrow> path \<Rightarrow> state \<Rightarrow> outcome" where
  "sync_folders ord clock 0 source replica log_file s = (Some RecursionError, s)"
| "sync_folders ord clock (Suc depth) source replica log_file s =
     (case listdir (fs s) source of
        Inl e \<Rightarrow> (Some e, s)
      | Inr source_names \<Rightarrow>
          (case listdir (fs s) replica of
             Inl e \<Rightarrow> (Some e, s)
           | Inr replica_names \<Rightarrow>
               (let source_files = ord source_names; replica_files = ord replica_names in
                case for_each (sync_item clock (sync_folders ord clock depth) source replica log_file)
                       source_files s of
                  (Some e, s') \<Rightarrow> (Some e, s')
                | (None, s') \<Rightarrow>
                    for_each (prune_item clock source_files replica log_file) replica_files s')))"

section \<open>Notions used in the statements and proofs\<close>

text \<open>The path an operation record names.\<close>

fun op_path :: "operation \<Rightarrow> path" where
  "op_path (DirectoryCreated p) = p"
| "op_path (FileCopied p) = p"
| "op_path (DirectoryRemoved p) = p"
| "op_path (FileRemoved p) = p"

text \<open>Two paths name separate trees when neither lies at or beneath the other.\<close>

definition separate :: "path \<Rightarrow> path \<Rightarrow> bool" where
  "separate p q = (\<not> prefix p q \<and> \<not> prefix q p)"

text \<open>
  What a write to the log file can do to a path: nothing, or, at the log file itself, leave
  a regular file where there was none or a regular file before.
\<close>

definition same_or_logged :: "path \<Rightarrow> node \<Rightarrow> node \<Rightarrow> path \<Rightarrow> bool" where
  "same_or_logged log_file t t' q =
     (view t' q = view t q \<or>
      (q = log_file \<and> view t q \<noteq> Directory \<and> (\<exists>c. view t' q = Regular c)))"

text \<open>
  \<open>within log_file p s s'\<close>: from \<open>s\<close> to \<open>s'\<close> nothing changed except at \<open>p\<close> and beneath
  it, and at the log file.  Every path that does not extend \<open>p\<close> shows the same entry, the
  log file apart; every path that neither extends \<open>p\<close> nor is extended by it, and is
  separate from the log file, holds the same subtree (bytes, times and all); and the
  printed log grew by records that name \<open>p\<close> or a path beneath it.  \<open>below log_file p\<close> is
  the same with \<open>p\<close> itself excluded.
\<close>

definition within :: "path \<Rightarrow> path \<Rightarrow> state \<Rightarrow> state \<Rightarrow> bool" where
  "within log_file p s s' =
     ((\<forall>q. \<not> prefix p q \<longrightarrow> same_or_logged log_file (fs s) (fs s') q) \<and>
      (\<forall>q. \<not> prefix p q \<and> \<not> prefix q p \<and> separate log_file q \<longrightarrow>
           lookup (fs s') q = lookup (fs s) q) \<and>
      (\<exists>ops. log s' = log s @ ops \<and> (\<forall>op \<in> set ops. prefix p (op_path op))))"

definition below :: "path \<Rightarrow> path \<Rightarrow> state \<Rightarrow> state \<Rightarrow> bool" where
  "below log_file p s s' =
     ((\<forall>q. \<not> strict_prefix p q \<longrightarrow> same_or_logged log_file (fs s) (fs s') q) \<and>
      (\<forall>q. \<not> prefix p q \<and> \<not> prefix q p \<and> separate log_file q \<longrightarrow>
           lookup (fs s') q = lookup (fs s) q) \<and>
      (\<exists>ops. log s' = log s @ ops \<and> (\<forall>op \<in> set ops. strict_prefix p (op_path op))))"

text \<open>
  The log file can be opened for appending: it is a regular file, or it is missing and its
  directory is there.
\<close>

definition loggable :: "node \<Rightarrow> path \<Rightarrow> bool" where
  "loggable t log_file =
     (case view t log_file of
        Directory \<Rightarrow> False
      | Regular c \<Rightarrow> True
      | Absent \<Rightarrow> isdir t (butlast log_file))"

text \<open>Lines 53 and 54: the copy with its log record.\<close>

definition do_copy :: "clock \<Rightarrow> path \<Rightarrow> path \<Rightarrow> path \<Rightarrow> state \<Rightarrow> outcome" where
  "do_copy clock source_item replica_item log_file s =
     (case copy2 source_item replica_item (fs s) of
        Inl e \<Rightarrow> (Some e, s)
      | Inr t \<Rightarrow> log_operation clock (FileCopied replica_item) log_file (s\<lparr>fs := t\<rparr>))"

text \<open>The bytes of the line that is logged for a message after \<open>k\<close> printed lines.\<close>

definition log_line :: "clock \<Rightarrow> nat \<Rightarrow> operation \<Rightarrow> byte list" where
  "log_line clock k m = encode (''['' @ snd (clock k) @ ''] '' @ message_text m @ [CHR 0x0A])"

text \<open>
  The example of the specification: \<^verbatim>\<open>source = {a.txt="hello", sub/b.txt="x"}\<close> and
  \<^verbatim>\<open>replica = {a.txt="hello", c.txt="old"}\<close>, two directories under one root, with the log
  file \<^verbatim>\<open>sync.log\<close> beside them.  After the pass the log file holds the two lines.
\<close>

definition hello :: "byte list" where "hello = [0x68, 0x65, 0x6c, 0x6c, 0x6f]"

definition example_before :: node where
  "example_before =
     Dir [(''source'', Dir [(''a.txt'', File hello 1), (''sub'', Dir [(''b.txt'', File [0x78] 2)])]),
          (''replica'', Dir [(''a.txt'', File hello 3), (''c.txt'', File [0x6f, 0x6c, 0x64] 4)])]"

definition example_after :: "clock \<Rightarrow> node" where
  "example_after clock =
     Dir [(''source'', Dir [(''a.txt'', File hello 1), (''sub'', Dir [(''b.txt'', File [0x78] 2)])]),
          (''replica'', Dir [(''a.txt'', File hello 3), (''sub'', Dir [(''b.txt'', File [0x78] 2)])]),
          (''sync.log'',
             File (log_line clock 0 (DirectoryCreated [''replica'', ''sub'']) @
                   log_line clock 1 (FileRemoved [''replica'', ''c.txt'']))
                  (fst (clock 1)))]"

text \<open>A clock for concrete runs: one second per line.\<close>

definition example_clock :: clock where
  "example_clock k = (1700000000 + k, ''2023-11-14 22:13:20'')"

text \<open>
  Two files of 128 bytes that differ in six bytes and have the same MD5 digest
  (Wang and Yu, 2005).
\<close>

definition wang_a :: "byte list" where
  "wang_a = [
    0xd1, 0x31, 0xdd, 0x02, 0xc5, 0xe6, 0xee, 0xc4, 0x69, 0x3d, 0x9a, 0x06, 0x98, 0xaf, 0xf9, 0x5c,
    0x2f, 0xca, 0xb5, 0x87, 0x12, 0x46, 0x7e, 0xab, 0x40, 0x04, 0x58, 0x3e, 0xb8, 0xfb, 0x7f, 0x89,
    0x55, 0xad, 0x34, 0x06, 0x09, 0xf4, 0xb3, 0x02, 0x83, 0xe4, 0x88, 0x83, 0x25, 0x71, 0x41, 0x5a,
    0x08, 0x51, 0x25, 0xe8, 0xf7, 0xcd, 0xc9, 0x9f, 0xd9, 0x1d, 0xbd, 0xf2, 0x80, 0x37, 0x3c, 0x5b,
    0xd8, 0x82, 0x3e, 0x31, 0x56, 0x34, 0x8f, 0x5b, 0xae, 0x6d, 0xac, 0xd4, 0x36, 0xc9, 0x19, 0xc6,
    0xdd, 0x53, 0xe2, 0xb4, 0x87, 0xda, 0x03, 0xfd, 0x02, 0x39, 0x63, 0x06, 0xd2, 0x48, 0xcd, 0xa0,
    0xe9, 0x9f, 0x33, 0x42, 0x0f, 0x57, 0x7e, 0xe8, 0xce, 0x54, 0xb6, 0x70, 0x80, 0xa8, 0x0d, 0x1e,
    0xc6, 0x98, 0x21, 0xbc, 0xb6, 0xa8, 0x83, 0x93, 0x96, 0xf9, 0x65, 0x2b, 0x6f, 0xf7, 0x2a, 0x70]"

definition wang_b :: "byte list" where
  "wang_b = [
    0xd1, 0x31, 0xdd, 0x02, 0xc5, 0xe6, 0xee, 0xc4, 0x69, 0x3d, 0x9a, 0x06, 0x98, 0xaf, 0xf9, 0x5c,
    0x2f, 0xca, 0xb5, 0x07, 0x12, 0x46, 0x7e, 0xab, 0x40, 0x04, 0x58, 0x3e, 0xb8, 0xfb, 0x7f, 0x89,
    0x55, 0xad, 0x34, 0x06, 0x09, 0xf4, 0xb3, 0x02, 0x83, 0xe4, 0x88, 0x83, 0x25, 0xf1, 0x41, 0x5a,
    0x08, 0x51, 0x25, 0xe8, 0xf7, 0xcd, 0xc9, 0x9f, 0xd9, 0x1d, 0xbd, 0x72, 0x80, 0x37, 0x3c, 0x5b,
    0xd8, 0x82, 0x3e, 0x31, 0x56, 0x34, 0x8f, 0x5b, 0xae, 0x6d, 0xac, 0xd4, 0x36, 0xc9, 0x19, 0xc6,
    0xdd, 0x53, 0xe2, 0x34, 0x87, 0xda, 0x03, 0xfd, 0x02, 0x39, 0x63, 0x06, 0xd2, 0x48, 0xcd, 0xa0,
    0xe9, 0x9f, 0x33, 0x42, 0x0f, 0x57, 0x7e, 0xe8, 0xce, 0x54, 0xb6, 0x70, 0x80, 0x28, 0x0d, 0x1e,
    0xc6, 0x98, 0x21, 0xbc, 0xb6, 0xa8, 0x83, 0x93, 0x96, 0xf9, 0x65, 0xab, 0x6f, 0xf7, 0x2a, 0x70]"

text \<open>
  \<open>untouched p s s'\<close>: the subtree at \<open>p\<close> is the same in both states, and no record
  logged in between names \<open>p\<close> or a path beneath it.
\<close>

definition untouched :: "path \<Rightarrow> state \<Rightarrow> state \<Rightarrow> bool" where
  "untouched p s s' =
     (lookup (fs s') p = lookup (fs s) p \<and>
      (\<exists>ops. log s' = log s @ ops \<and> (\<forall>op \<in> set ops. \<not> prefix p (op_path op))))"

text \<open>The records a run added to the log.\<close>

definition new_ops :: "state \<Rightarrow> state \<Rightarrow> operation list" where
  "new_ops s s' = drop (length (log s)) (log s')"

text \<open>
  What one pass makes of a replica path, given what the source and the replica showed
  there before: the source's entry, except that a replica file with the digest of the source
  file stays as it was.
\<close>

definition converged_entry :: "entry \<Rightarrow> entry \<Rightarrow> entry \<Rightarrow> bool" where
  "converged_entry src before after =
     (case src of
        Regular c \<Rightarrow>
          (case before of
             Regular c' \<Rightarrow> (if md5_hex c' = md5_hex c then after = before else after = src)
           | _ \<Rightarrow> after = src)
      | _ \<Rightarrow> after = src)"

definition converged :: "path \<Rightarrow> path \<Rightarrow> node \<Rightarrow> node \<Rightarrow> bool" where
  "converged source replica t t' =
     (\<forall>q. converged_entry (view t (source @ q)) (view t (replica @ q)) (view t' (replica @ q)))"

text \<open>
  The operations a pass owes, read off the trees before it.  At a relative path \<open>q\<close> whose
  parent directory exists on both sides: a directory of the source missing in the replica is
  created; a file of the source missing in the replica, or there with another digest, is
  copied; an entry of the replica missing in the source is removed.
\<close>

fun due_at :: "node \<Rightarrow> path \<Rightarrow> path \<Rightarrow> path \<Rightarrow> operation \<Rightarrow> bool" where
  "due_at t source replica q (DirectoryCreated p) =
     (view t (source @ q) = Directory \<and> view t (replica @ q) = Absent \<and>
      view t (replica @ butlast q) = Directory)"
| "due_at t source replica q (FileCopied p) =
     (\<exists>c. view t (source @ q) = Regular c \<and> view t (replica @ butlast q) = Directory \<and>
          (view t (replica @ q) = Absent \<or>
           (\<exists>c'. view t (replica @ q) = Regular c' \<and> md5_hex c' \<noteq> md5_hex c)))"
| "due_at t source replica q (DirectoryRemoved p) =
     (view t (replica @ q) = Directory \<and> view t (source @ q) = Absent \<and>
      view t (source @ butlast q) = Directory)"
| "due_at t source replica q (FileRemoved p) =
     ((\<exists>c. view t (replica @ q) = Regular c) \<and> view t (source @ q) = Absent \<and>
      view t (source @ butlast q) = Directory)"

definition due :: "node \<Rightarrow> path \<Rightarrow> path \<Rightarrow> operation \<Rightarrow> bool" where
  "due t source replica m = (\<exists>q. q \<noteq> [] \<and> op_path m = replica @ q \<and> due_at t source replica q m)"

text \<open>
  The outcome of a pass that ended normally: every replica path has converged, and the log
  grew by exactly the operations that were due, each once.
\<close>

definition reconciled :: "path \<Rightarrow> path \<Rightarrow> state \<Rightarrow> state \<Rightarrow> bool" where
  "reconciled source replica s s' =
     (converged source replica (fs s) (fs s') \<and>
      (\<forall>m. count_list (new_ops s s') m = (if due (fs s) source replica m then 1 else 0)))"

text \<open>
  A name at which source and replica hold regular files with different bytes and the same
  digest.
\<close>

definition collides :: "node \<Rightarrow> path \<Rightarrow> path \<Rightarrow> path \<Rightarrow> bool" where
  "collides t source replica q =
     (\<exists>c c'. view t (source @ q) = Regular c \<and> view t (replica @ q) = Regular c' \<and>
             c' \<noteq> c \<and> md5_hex c' = md5_hex c)"

text \<open>A source and a replica that hold the two colliding files under the same name.\<close>

definition collision_fs :: node where
  "collision_fs =
     Dir [(''source'', Dir [(''f'', File wang_a 1)]), (''replica'', Dir [(''f'', File wang_b 2)])]"

text \<open>The height of a tree: 0 for a file, one more than its highest child for a directory.\<close>

fun height :: "node \<Rightarrow> nat" where
  "height (File c m) = 0"
| "height (Dir es) = Suc (fold max (map (\<lambda>e. height (snd e)) es) 0)"

definition height_at :: "node \<Rightarrow> path \<Rightarrow> nat" where
  "height_at t p = (case lookup t p of None \<Rightarrow> 0 | Some n \<Rightarrow> height n)"

text \<open>
  The error a name of the wrong kind raises.  Where the source has a directory and the replica
  a file, \<^verbatim>\<open>os.listdir\<close> of the replica entry raises \<^verbatim>\<open>NotADirectoryError\<close>; where the
  source has a file and the replica a directory, opening the replica entry for hashing raises
  \<^verbatim>\<open>IsADirectoryError\<close>.
\<close>

definition kind_mismatch :: "node \<Rightarrow> path \<Rightarrow> path \<Rightarrow> path \<Rightarrow> error \<Rightarrow> bool" where
  "kind_mismatch t source replica q e =
     (q \<noteq> [] \<and>
      ((view t (source @ q) = Directory \<and> (\<exists>c. view t (replica @ q) = Regular c) \<and>
        e = NotADirectoryError (replica @ q)) \<or>
       ((\<exists>c. view t (source @ q) = Regular c) \<and> view t (replica @ q) = Directory \<and>
        e = IsADirectoryError (replica @ q))))"

text \<open>A name that is a directory on one side and a regular file on the other.\<close>

definition kinds_differ :: "node \<Rightarrow> path \<Rightarrow> path \<Rightarrow> path \<Rightarrow> bool" where
  "kinds_differ t source replica q =
     (q \<noteq> [] \<and>
      ((view t (source @ q) = Directory \<and> (\<exists>c. view t (replica @ q) = Regular c)) \<or>
       ((\<exists>c. view t (source @ q) = Regular c) \<and> view t (replica @ q) = Directory)))"

text \<open>
  A replica in step with its source: the same names and kinds at every level, and every
  file with the digest of the source file.
\<close>

definition in_sync :: "path \<Rightarrow> path \<Rightarrow> node \<Rightarrow> bool" where
  "in_sync source replica t =
     (\<forall>q. converged_entry (view t (source @ q)) (view t (replica @ q)) (view t (replica @ q)))"

text \<open>
  Trees for concrete runs: kind mismatches in both directions, a source inside its replica,
  a replica inside its source, a replica path that is a regular file, a log file inside the
  replica, and a source with one file for a log file inside the source.
\<close>

definition mismatch_fs :: node where
  "mismatch_fs =
     Dir [(''source'', Dir [(''a.txt'', File hello 1), (''d'', Dir [])]),
          (''replica'', Dir [(''d'', File [0x31] 5)])]"

definition mismatch_fs2 :: node where
  "mismatch_fs2 =
     Dir [(''source'', Dir [(''x'', File hello 1)]),
          (''replica'', Dir [(''x'', Dir [])])]"

definition nested_fs :: node where
  "nested_fs = Dir [(''r'', Dir [(''s'', Dir [(''x'', File [0x31] 0)])])]"

definition inner_fs :: node where
  "inner_fs = Dir [(''s'', Dir [(''r'', Dir [])])]"

definition blocked_fs :: node where
  "blocked_fs = Dir [(''s'', Dir [(''d'', Dir [])]), (''f'', File [] 0)]"

definition log_in_replica :: "byte list \<Rightarrow> nat \<Rightarrow> node" where
  "log_in_replica bytes time =
     Dir [(''source'', Dir []), (''replica'', Dir [(''sync.log'', File bytes time)])]"

definition one_file_fs :: node where
  "one_file_fs = Dir [(''source'', Dir [(''f'', File hello 1)]), (''replica'', Dir [])]"

section \<open>Paths, lookups and rebinding\<close>

lemma lookup_append:
  "lookup t (p @ q) = (case lookup t p of None \<Rightarrow> None | Some n \<Rightarrow> lookup n q)"
  by (induction p arbitrary: t) (auto split: node.splits option.splits)

lemma lookup_Cons_Dir [simp]:
  "lookup (Dir es) (x # p) = (case map_of es x of None \<Rightarrow> None | Some n \<Rightarrow> lookup n p)"
  by simp

lemma lookup_Cons_File [simp]: "lookup (File c m) (x # p) = None"
  by simp

lemma lookup_bind_at_other:
  "\<not> prefix p q \<Longrightarrow> \<not> prefix q p \<Longrightarrow> lookup (bind_at p v t) q = lookup t q"
proof (induction p arbitrary: t q)
  case Nil
  then show ?case by simp
next
  case (Cons x p)
  then obtain y q' where q: "q = y # q'" by (cases q) auto
  show ?case
  proof (cases t)
    case (File c m)
    then show ?thesis by simp
  next
    case (Dir es)
    show ?thesis
    proof (cases "x = y")
      case True
      with Cons.prems q have np: "\<not> prefix p q'" "\<not> prefix q' p" by auto
      then have pne: "p \<noteq> []" by auto
      show ?thesis
        using Dir q True pne Cons.IH [OF np]
        by (auto simp: update_conv' split: option.splits)
    next
      case False
      then show ?thesis
        using Dir q by (auto simp: update_conv' delete_conv' split: option.splits)
    qed
  qed
qed

lemma view_Nil_Dir [simp]: "view (Dir es) [] = Directory"
  by (simp add: view_def)

lemma view_Nil_File [simp]: "view (File c m) [] = Regular c"
  by (simp add: view_def)

lemma view_Cons_File [simp]: "view (File c m) (x # q) = Absent"
  by (simp add: view_def)

lemma view_Cons_Dir [simp]:
  "view (Dir es) (x # q) = (case map_of es x of None \<Rightarrow> Absent | Some n \<Rightarrow> view n q)"
  by (simp add: view_def split: option.splits)

lemma view_bind_at_other:
  "\<not> prefix p q \<Longrightarrow> view (bind_at p v t) q = view t q"
proof (induction p arbitrary: t q)
  case Nil
  then show ?case by simp
next
  case (Cons x p)
  show ?case
  proof (cases t)
    case (File c m)
    then show ?thesis by simp
  next
    case (Dir es)
    show ?thesis
    proof (cases q)
      case Nil
      then show ?thesis using Dir by (auto split: option.splits)
    next
      case q: (Cons y q')
      show ?thesis
      proof (cases "x = y")
        case True
        with Cons.prems q have np: "\<not> prefix p q'" by auto
        then have pne: "p \<noteq> []" by auto
        show ?thesis
          using Dir q True pne Cons.IH [OF np]
          by (auto simp: update_conv' split: option.splits)
      next
        case False
        then show ?thesis
          using Dir q by (auto simp: update_conv' delete_conv' split: option.splits)
      qed
    qed
  qed
qed

lemma lookup_bind_at_under:
  "p \<noteq> [] \<Longrightarrow> isdir t (butlast p) \<Longrightarrow>
   lookup (bind_at p v t) (p @ r) = (case v of None \<Rightarrow> None | Some n \<Rightarrow> lookup n r)"
proof (induction p arbitrary: t)
  case Nil
  then show ?case by simp
next
  case (Cons x p)
  show ?case
  proof (cases t)
    case (File c m)
    with Cons.prems show ?thesis by (auto simp: isdir_def split: if_splits)
  next
    case (Dir es)
    show ?thesis
    proof (cases "p = []")
      case True
      then show ?thesis using Dir
        by (auto simp: update_conv' delete_conv' split: option.splits)
    next
      case False
      with Cons.prems Dir obtain c where c: "map_of es x = Some c" "isdir c (butlast p)"
        by (auto simp: isdir_def split: option.splits)
      show ?thesis using Dir False c Cons.IH [OF False c(2)]
        by (auto simp: update_conv')
    qed
  qed
qed

lemma makedirs_bind_at:
  "p \<noteq> [] \<Longrightarrow> isdir t (butlast p) \<Longrightarrow> lookup t p = None \<Longrightarrow>
   makedirs full p t = Inr (bind_at p (Some (Dir [])) t)"
proof (induction p arbitrary: t)
  case Nil
  then show ?case by simp
next
  case (Cons x p)
  show ?case
  proof (cases t)
    case (File c m)
    with Cons.prems show ?thesis by (auto simp: isdir_def split: if_splits)
  next
    case (Dir es)
    show ?thesis
    proof (cases "p = []")
      case True
      then show ?thesis using Dir Cons.prems
        by (auto split: option.splits)
    next
      case False
      with Cons.prems Dir obtain c where c: "map_of es x = Some c" "isdir c (butlast p)" "lookup c p = None"
        by (auto simp: isdir_def split: option.splits)
      show ?thesis using Dir False c Cons.IH [OF False c(2) c(3)]
        by auto
    qed
  qed
qed

lemma isdir_view: "isdir t p \<longleftrightarrow> view t p = Directory"
  by (auto simp: isdir_def view_def split: option.splits node.splits)

lemma path_exists_view: "path_exists t p \<longleftrightarrow> view t p \<noteq> Absent"
  by (auto simp: path_exists_def view_def split: option.splits node.splits)

lemma view_Directory_iff: "view t p = Directory \<longleftrightarrow> (\<exists>es. lookup t p = Some (Dir es))"
  by (auto simp: view_def split: option.splits node.splits)

lemma view_Regular_iff: "view t p = Regular c \<longleftrightarrow> (\<exists>m. lookup t p = Some (File c m))"
  by (auto simp: view_def split: option.splits node.splits)

lemma view_Absent_iff: "view t p = Absent \<longleftrightarrow> lookup t p = None"
  by (auto simp: view_def split: option.splits node.splits)

lemma view_append_Absent: "view t p = Absent \<Longrightarrow> view t (p @ r) = Absent"
  by (auto simp: view_def lookup_append split: option.splits node.splits)

lemma view_append_Regular: "view t p = Regular c \<Longrightarrow> r \<noteq> [] \<Longrightarrow> view t (p @ r) = Absent"
  by (cases r) (auto simp: view_def lookup_append split: option.splits node.splits)

lemma view_parent_Directory: "view t (p @ r) \<noteq> Absent \<Longrightarrow> r \<noteq> [] \<Longrightarrow> view t p = Directory"
  by (cases "view t p") (auto simp: view_append_Absent view_append_Regular)

lemma view_of_lookup: "lookup t p = lookup t' p' \<Longrightarrow> view t (p @ r) = view t' (p' @ r)"
  by (simp add: view_def lookup_append)

lemma isdir_parent: "lookup t (p @ [x]) \<noteq> None \<Longrightarrow> isdir t p"
  by (auto simp: lookup_append isdir_def split: option.splits node.splits)

lemma bind_at_here:
  "isdir t p \<Longrightarrow> lookup (bind_at (p @ [x]) v t) (p @ [x]) = v"
  using lookup_bind_at_under [of "p @ [x]" t v "[]"] by (cases v) auto

lemma bind_at_here2:
  "isdir t p \<Longrightarrow> lookup (bind_at (p @ [x]) v (bind_at (p @ [x]) w t)) (p @ [x]) = v"
proof -
  assume d: "isdir t p"
  have "view (bind_at (p @ [x]) w t) p = view t p"
    by (rule view_bind_at_other) simp
  with d have "isdir (bind_at (p @ [x]) w t) p" by (simp add: isdir_view)
  then show ?thesis by (rule bind_at_here)
qed

section \<open>What a pass can change\<close>

lemma same_or_logged_refl [simp]: "same_or_logged log_file t t q"
  by (simp add: same_or_logged_def)

lemma same_or_logged_trans:
  "same_or_logged log_file t t' q \<Longrightarrow> same_or_logged log_file t' t'' q \<Longrightarrow>
   same_or_logged log_file t t'' q"
  by (auto simp: same_or_logged_def)

lemma same_or_logged_same: "view t' q = view t q \<Longrightarrow> same_or_logged log_file t t' q"
  by (simp add: same_or_logged_def)

lemma same_or_logged_view:
  "same_or_logged log_file t t' q \<Longrightarrow> q \<noteq> log_file \<Longrightarrow> view t' q = view t q"
  by (auto simp: same_or_logged_def)

lemma same_or_logged_Directory:
  "same_or_logged log_file t t' q \<Longrightarrow> view t' q = Directory \<longleftrightarrow> view t q = Directory"
  by (auto simp: same_or_logged_def)

lemma append_to_result:
  assumes "append_to p bs now t = Inr t'"
  shows "view t p \<noteq> Directory \<and> (\<exists>c. t' = bind_at p (Some (File c now)) t) \<and>
         (p \<noteq> [] \<longrightarrow> isdir t (butlast p))"
proof (cases "lookup t p")
  case None
  with assms show ?thesis
    by (auto simp: append_to_def view_def split: if_splits)
next
  case (Some n)
  have "isdir t (butlast p)" if "p \<noteq> []"
  proof -
    from that have "p = butlast p @ [last p]" by simp
    with Some have "lookup t (butlast p @ [last p]) \<noteq> None" by simp
    then show ?thesis by (rule isdir_parent)
  qed
  with assms Some show ?thesis
    by (cases n) (auto simp: append_to_def view_def)
qed

lemma append_to_frame:
  assumes "append_to p bs now t = Inr t'"
  shows "same_or_logged p t t' q" and "separate p q \<Longrightarrow> lookup t' q = lookup t q"
proof -
  from append_to_result [OF assms] obtain c where
    nd: "view t p \<noteq> Directory" and t': "t' = bind_at p (Some (File c now)) t" and
    par: "p \<noteq> [] \<longrightarrow> isdir t (butlast p)" by blast
  show "lookup t' q = lookup t q" if "separate p q"
    using that unfolding t' separate_def by (intro lookup_bind_at_other) auto
  show "same_or_logged p t t' q"
  proof (cases "prefix p q")
    case False
    then show ?thesis unfolding t' by (intro same_or_logged_same view_bind_at_other)
  next
    case True
    then obtain r where q: "q = p @ r" by (auto simp: prefix_def)
    show ?thesis
    proof (cases "p = []")
      case True
      then show ?thesis by (simp add: t')
    next
      case False
      with par have "lookup t' (p @ []) = Some (File c now)"
        unfolding t' by (subst lookup_bind_at_under) auto
      then have v': "view t' p = Regular c" by (simp add: view_def)
      show ?thesis
      proof (cases "r = []")
        case True
        with q nd v' show ?thesis by (simp add: same_or_logged_def)
      next
        case False
        have "view t' (p @ r) = Absent" using v' False by (rule view_append_Regular)
        moreover have "view t (p @ r) = Absent"
          using nd False by (cases "view t p") (auto simp: view_append_Absent view_append_Regular)
        ultimately show ?thesis using q by (simp add: same_or_logged_def)
      qed
    qed
  qed
qed

lemma log_operation_log:
  "log_operation clock m log_file s = (r, s') \<Longrightarrow> log s' = log s @ [m]"
  by (auto simp: log_operation_def Let_def split: prod.splits sum.splits)

lemma log_operation_frame:
  assumes "log_operation clock m log_file s = (r, s')"
  shows "same_or_logged log_file (fs s) (fs s') q"
    and "separate log_file q \<Longrightarrow> lookup (fs s') q = lookup (fs s) q"
  using assms append_to_frame [of log_file _ _ "fs s" "fs s'" q]
  by (auto simp: log_operation_def Let_def split: prod.splits sum.splits)

lemma log_operation_failed:
  "log_operation clock m log_file s = (Some e, s') \<Longrightarrow> fs s' = fs s \<and> e \<noteq> RecursionError"
  by (auto simp: log_operation_def append_to_def no_entry_def Let_def
      split: prod.splits sum.splits option.splits node.splits if_splits)

lemma within_refl [simp]: "within log_file p s s"
  by (simp add: within_def)

lemma below_refl [simp]: "below log_file p s s"
  by (simp add: below_def)

lemma below_trans:
  assumes "below log_file p s s'" and "below log_file p s' s''"
  shows "below log_file p s s''"
proof -
  have "same_or_logged log_file (fs s) (fs s'') q" if "\<not> strict_prefix p q" for q
    using assms that unfolding below_def by (blast intro: same_or_logged_trans)
  moreover have "lookup (fs s'') q = lookup (fs s) q"
    if "\<not> prefix p q \<and> \<not> prefix q p \<and> separate log_file q" for q
    using assms that unfolding below_def by simp
  moreover have "\<exists>ops. log s'' = log s @ ops \<and> (\<forall>op \<in> set ops. strict_prefix p (op_path op))"
    using assms unfolding below_def by (elim conjE exE) fastforce
  ultimately show ?thesis unfolding below_def by blast
qed

lemma within_trans:
  assumes "within log_file p s s'" and "within log_file p s' s''"
  shows "within log_file p s s''"
proof -
  have "same_or_logged log_file (fs s) (fs s'') q" if "\<not> prefix p q" for q
    using assms that unfolding within_def by (blast intro: same_or_logged_trans)
  moreover have "lookup (fs s'') q = lookup (fs s) q"
    if "\<not> prefix p q \<and> \<not> prefix q p \<and> separate log_file q" for q
    using assms that unfolding within_def by simp
  moreover have "\<exists>ops. log s'' = log s @ ops \<and> (\<forall>op \<in> set ops. prefix p (op_path op))"
    using assms unfolding within_def by (elim conjE exE) fastforce
  ultimately show ?thesis unfolding within_def by blast
qed

lemma below_imp_within: "below log_file p s s' \<Longrightarrow> within log_file p s s'"
  unfolding below_def within_def
  by (elim conjE exE) (intro conjI, auto simp: strict_prefix_def)

lemma within_child_imp_below: "within log_file (p @ [x]) s s' \<Longrightarrow> below log_file p s s'"
proof -
  assume w: "within log_file (p @ [x]) s s'"
  have a: "\<not> strict_prefix p q \<Longrightarrow> \<not> prefix (p @ [x]) q" for q
    by (metis prefix_order.dual_order.strict_trans1 prefix_snoc strict_prefixI' prefix_order.order_refl)
  have b: "\<not> prefix p q \<Longrightarrow> \<not> prefix q p \<Longrightarrow> \<not> prefix (p @ [x]) q \<and> \<not> prefix q (p @ [x])" for q
    by (metis append_prefixD prefix_snoc)
  have c: "prefix (p @ [x]) r \<Longrightarrow> strict_prefix p r" for r
    by (metis a)
  show ?thesis
    using w unfolding within_def below_def
    apply (elim conjE exE)
    apply (intro conjI)
    using a apply blast
    using b apply blast
    using c apply blast
    done
qed

text \<open>A change of the file system at or beneath \<open>p\<close>, followed by its log record.\<close>

lemma within_logged:
  assumes t: "\<And>q. \<not> prefix p q \<Longrightarrow> view t q = view (fs s) q"
             "\<And>q. \<not> prefix p q \<Longrightarrow> \<not> prefix q p \<Longrightarrow> lookup t q = lookup (fs s) q"
    and run: "log_operation clock m log_file (s\<lparr>fs := t\<rparr>) = (r, s')"
    and m: "op_path m = p"
  shows "within log_file p s s'"
proof -
  have "same_or_logged log_file (fs s) (fs s') q" if "\<not> prefix p q" for q
    using log_operation_frame(1) [OF run, of q] t(1) [OF that]
    by (auto simp: same_or_logged_def)
  moreover have "lookup (fs s') q = lookup (fs s) q"
    if "\<not> prefix p q \<and> \<not> prefix q p \<and> separate log_file q" for q
    using log_operation_frame(2) [OF run, of q] t(2) [of q] that by simp
  moreover have "log s' = log s @ [m]"
    using log_operation_log [OF run] by simp
  ultimately show ?thesis
    unfolding within_def using m by auto
qed

lemma within_bind_at:
  "log_operation clock m log_file (s\<lparr>fs := bind_at p v (fs s)\<rparr>) = (r, s') \<Longrightarrow> op_path m = p \<Longrightarrow>
   within log_file p s s'"
  by (rule within_logged [where t = "bind_at p v (fs s)"])
     (simp_all add: view_bind_at_other lookup_bind_at_other)

lemma within_bind_at2:
  "log_operation clock m log_file (s\<lparr>fs := bind_at p v (bind_at p w (fs s))\<rparr>) = (r, s') \<Longrightarrow>
   op_path m = p \<Longrightarrow> within log_file p s s'"
  by (rule within_logged [where t = "bind_at p v (bind_at p w (fs s))"])
     (simp_all add: view_bind_at_other lookup_bind_at_other)

lemma copytree_result:
  assumes "copytree src (rep @ [x]) t = Inr t'" and "isdir t rep" and "\<not> path_exists t (rep @ [x])"
  shows "\<exists>es. lookup t src = Some (Dir es) \<and>
           t' = bind_at (rep @ [x]) (Some (Dir es)) (bind_at (rep @ [x]) (Some (Dir [])) t)"
proof -
  have mk: "makedirs full (rep @ [x]) t = Inr (bind_at (rep @ [x]) (Some (Dir [])) t)" for full
    using assms(2,3) by (intro makedirs_bind_at) (auto simp: path_exists_def)
  show ?thesis
    using assms(1) unfolding copytree_def mk
    by (auto split: option.splits node.splits if_splits)
qed

lemma copy2_result:
  assumes "copy2 src dst t = Inr t'" and "\<not> isdir t dst"
  shows "\<exists>c m. lookup t src = Some (File c m) \<and> isdir t (butlast dst) \<and>
           t' = bind_at dst (Some (File c m)) t"
  using assms unfolding copy2_def open_rb_def
  by (auto simp: Let_def split: option.splits node.splits if_splits sum.splits)

lemma rmtree_result:
  "rmtree p t = Inr t' \<Longrightarrow> t' = bind_at p None t \<and> isdir t p \<and> p \<noteq> []"
  unfolding rmtree_def isdir_def by (auto split: option.splits node.splits if_splits)

lemma remove_result:
  "remove p t = Inr t' \<Longrightarrow> t' = bind_at p None t \<and> (\<exists>c m. lookup t p = Some (File c m))"
  unfolding remove_def by (auto split: option.splits node.splits if_splits)

lemma calculate_md5_Inr:
  "calculate_md5 t p = Inr h \<Longrightarrow> \<exists>c m. lookup t p = Some (File c m)"
  unfolding calculate_md5_def open_rb_def by (auto split: option.splits node.splits sum.splits)

lemma isdir_not_File: "lookup t p = Some (File c m) \<Longrightarrow> \<not> isdir t p"
  by (simp add: isdir_def)

lemma not_exists_not_isdir: "\<not> path_exists t p \<Longrightarrow> \<not> isdir t p"
  by (auto simp: path_exists_def isdir_def)

lemma sync_item_dir_new:
  "isdir (fs s) (source @ [item]) \<Longrightarrow> \<not> path_exists (fs s) (replica @ [item]) \<Longrightarrow>
   sync_item clock self source replica log_file item s =
     (case copytree (source @ [item]) (replica @ [item]) (fs s) of
        Inl e \<Rightarrow> (Some e, s)
      | Inr t \<Rightarrow> log_operation clock (DirectoryCreated (replica @ [item])) log_file (s\<lparr>fs := t\<rparr>))"
  by (simp add: sync_item_def Let_def)

lemma sync_item_dir_old:
  "isdir (fs s) (source @ [item]) \<Longrightarrow> path_exists (fs s) (replica @ [item]) \<Longrightarrow>
   sync_item clock self source replica log_file item s =
     self (source @ [item]) (replica @ [item]) log_file s"
  by (simp add: sync_item_def Let_def)

lemma sync_item_file_new:
  "\<not> isdir (fs s) (source @ [item]) \<Longrightarrow> \<not> path_exists (fs s) (replica @ [item]) \<Longrightarrow>
   sync_item clock self source replica log_file item s =
     do_copy clock (source @ [item]) (replica @ [item]) log_file s"
  by (simp add: sync_item_def do_copy_def Let_def)

lemma sync_item_file_old:
  "\<not> isdir (fs s) (source @ [item]) \<Longrightarrow> path_exists (fs s) (replica @ [item]) \<Longrightarrow>
   sync_item clock self source replica log_file item s =
     (case calculate_md5 (fs s) (source @ [item]) of
        Inl e \<Rightarrow> (Some e, s)
      | Inr h1 \<Rightarrow>
          (case calculate_md5 (fs s) (replica @ [item]) of
             Inl e \<Rightarrow> (Some e, s)
           | Inr h2 \<Rightarrow>
               (if h1 \<noteq> h2 then do_copy clock (source @ [item]) (replica @ [item]) log_file s
                else (None, s))))"
  unfolding do_copy_def by (simp add: sync_item_def Let_def)

lemma do_copy_within:
  assumes "do_copy clock src dst log_file s = (r, s')" and "\<not> isdir (fs s) dst"
  shows "within log_file dst s s'"
proof (cases "copy2 src dst (fs s)")
  case (Inl e)
  with assms show ?thesis by (auto simp: do_copy_def)
next
  case (Inr t)
  with assms have s': "log_operation clock (FileCopied dst) log_file (s\<lparr>fs := t\<rparr>) = (r, s')"
    by (auto simp: do_copy_def)
  from copy2_result [OF Inr assms(2)] s' show ?thesis
    by (auto intro!: within_bind_at)
qed

lemma sync_item_within:
  assumes self: "\<And>s r s'. self (source @ [item]) (replica @ [item]) log_file s = (r, s') \<Longrightarrow>
                   below log_file (replica @ [item]) s s'"
    and rep: "isdir (fs s) replica"
    and run: "sync_item clock self source replica log_file item s = (r, s')"
  shows "within log_file (replica @ [item]) s s'"
proof (cases "isdir (fs s) (source @ [item])")
  case True
  show ?thesis
  proof (cases "path_exists (fs s) (replica @ [item])")
    case True
    with \<open>isdir (fs s) (source @ [item])\<close> run
    have "self (source @ [item]) (replica @ [item]) log_file s = (r, s')"
      by (simp add: sync_item_dir_old)
    then show ?thesis by (intro below_imp_within self)
  next
    case False
    show ?thesis
    proof (cases "copytree (source @ [item]) (replica @ [item]) (fs s)")
      case (Inl e)
      with True False run show ?thesis by (auto simp: sync_item_dir_new)
    next
      case (Inr t)
      with True False run
      have s': "log_operation clock (DirectoryCreated (replica @ [item])) log_file (s\<lparr>fs := t\<rparr>) = (r, s')"
        by (auto simp: sync_item_dir_new)
      from copytree_result [OF Inr rep False] s' show ?thesis
        by (auto intro!: within_bind_at2)
    qed
  qed
next
  case False
  show ?thesis
  proof (cases "path_exists (fs s) (replica @ [item])")
    case ne: False
    with run False have "do_copy clock (source @ [item]) (replica @ [item]) log_file s = (r, s')"
      by (simp add: sync_item_file_new)
    then show ?thesis using not_exists_not_isdir [OF ne] by (rule do_copy_within)
  next
    case True
    show ?thesis
      using run unfolding sync_item_file_old [OF False True]
      by (auto split: sum.splits if_splits dest!: calculate_md5_Inr
               intro!: do_copy_within simp: isdir_not_File)
  qed
qed

lemma prune_item_within:
  assumes run: "prune_item clock source_files replica log_file item s = (r, s')"
  shows "within log_file (replica @ [item]) s s'"
  using run unfolding prune_item_def
  by (auto simp: Let_def split: if_splits sum.splits
      dest!: rmtree_result remove_result intro!: within_bind_at)

lemma below_isdir: "below log_file p s s' \<Longrightarrow> isdir (fs s') p = isdir (fs s) p"
proof -
  assume "below log_file p s s'"
  then have "same_or_logged log_file (fs s) (fs s') p" by (simp add: below_def)
  then show ?thesis unfolding isdir_view by (rule same_or_logged_Directory)
qed

lemma for_each_below:
  assumes body: "\<And>x s r s'. isdir (fs s) replica \<Longrightarrow> body x s = (r, s') \<Longrightarrow>
                   within log_file (replica @ [x]) s s'"
  shows "isdir (fs s) replica \<Longrightarrow> for_each body xs s = (r, s') \<Longrightarrow> below log_file replica s s'"
proof (induction xs arbitrary: s)
  case Nil
  then show ?case by simp
next
  case (Cons x xs)
  obtain r1 s1 where b: "body x s = (r1, s1)" by (cases "body x s")
  from body [OF Cons.prems(1) b] have bl: "below log_file replica s s1"
    by (rule within_child_imp_below)
  show ?case
  proof (cases r1)
    case None
    with b Cons.prems(2) have "for_each body xs s1 = (r, s')" by simp
    moreover have "isdir (fs s1) replica" using below_isdir [OF bl] Cons.prems(1) by simp
    ultimately have "below log_file replica s1 s'" by (rule Cons.IH [rotated])
    with bl show ?thesis by (rule below_trans)
  next
    case (Some e)
    with b Cons.prems(2) have "s' = s1" by simp
    with bl show ?thesis by simp
  qed
qed

lemma listdir_Inr_isdir: "listdir t p = Inr ns \<Longrightarrow> isdir t p"
  by (auto simp: listdir_def isdir_def split: option.splits node.splits)

lemma sync_folders_below:
  "sync_folders ord clock depth source replica log_file s = (r, s') \<Longrightarrow> below log_file replica s s'"
proof (induction depth arbitrary: source replica s r s')
  case 0
  then show ?case by simp
next
  case (Suc depth)
  show ?case
  proof (cases "listdir (fs s) source")
    case (Inl e)
    with Suc.prems show ?thesis by simp
  next
    case src: (Inr source_names)
    show ?thesis
    proof (cases "listdir (fs s) replica")
      case (Inl e)
      with Suc.prems src show ?thesis by simp
    next
      case rep: (Inr replica_names)
      have d: "isdir (fs s) replica" using rep by (rule listdir_Inr_isdir)
      obtain r1 s1 where l1:
        "for_each (sync_item clock (sync_folders ord clock depth) source replica log_file)
           (ord source_names) s = (r1, s1)"
        by (cases "for_each (sync_item clock (sync_folders ord clock depth) source replica log_file)
                     (ord source_names) s")
      have b1: "below log_file replica s s1"
        using d l1
        by (rule for_each_below [rotated]) (rule sync_item_within, rule Suc.IH, assumption+)
      show ?thesis
      proof (cases r1)
        case (Some e)
        with Suc.prems src rep l1 have "s' = s1" by (simp add: Let_def)
        with b1 show ?thesis by simp
      next
        case None
        with Suc.prems src rep l1
        have l2: "for_each (prune_item clock (ord source_names) replica log_file) (ord replica_names) s1
                    = (r, s')"
          by (simp add: Let_def)
        have "isdir (fs s1) replica" using below_isdir [OF b1] d by simp
        then have "below log_file replica s1 s'"
          using l2 by (rule for_each_below [rotated]) (rule prune_item_within)
        with b1 show ?thesis by (rule below_trans)
      qed
    qed
  qed
qed
section \<open>The digest of a file read in chunks\<close>

lemma md5_blocks_append:
  "md5_blocks h (a @ b) = (case md5_blocks h a of (h', r) \<Rightarrow> md5_blocks h' (r @ b))"
proof (induction h a rule: md5_blocks.induct)
  case (1 h bs)
  show ?case
  proof (cases "length bs < 64")
    case True
    then show ?thesis by (simp add: md5_blocks.simps [of h bs])
  next
    case False
    then have "md5_blocks h (bs @ b) = md5_blocks (md5_compress h (take 64 bs)) (drop 64 bs @ b)"
      by (simp add: md5_blocks.simps [of h "bs @ b"])
    also have "\<dots> = (case md5_blocks (md5_compress h (take 64 bs)) (drop 64 bs) of
                       (h', r) \<Rightarrow> md5_blocks h' (r @ b))"
      using False by (intro "1.IH") simp
    also have "md5_blocks (md5_compress h (take 64 bs)) (drop 64 bs) = md5_blocks h bs"
      using False by (simp add: md5_blocks.simps [of h bs])
    finally show ?thesis .
  qed
qed

lemma md5_update_append:
  "md5_update (md5_update st a) b = md5_update st (a @ b)"
proof -
  obtain h buf n where st: "st = (h, buf, n)" by (cases st)
  obtain h1 r1 where b1: "md5_blocks h (buf @ a) = (h1, r1)" by (cases "md5_blocks h (buf @ a)")
  have "md5_blocks h (buf @ a @ b) = md5_blocks h1 (r1 @ b)"
    using md5_blocks_append [of h "buf @ a" b] b1 by simp
  then show ?thesis
    by (simp add: md5_update_def st b1 split: prod.splits)
qed

lemma concat_read_chunks: "concat (read_chunks k bs) = (if k = 0 then [] else bs)"
proof (induction k bs rule: read_chunks.induct)
  case (1 k bs)
  show ?case
  proof (cases "bs = [] \<or> k = 0")
    case True
    then show ?thesis by (auto simp: read_chunks.simps [of k bs])
  next
    case False
    then show ?thesis using "1.IH" by (simp add: read_chunks.simps [of k bs])
  qed
qed

lemma foldl_md5_update:
  "foldl md5_update (md5_update st a) chunks = md5_update st (a @ concat chunks)"
  by (induction chunks arbitrary: a) (simp_all add: md5_update_append)

lemma md5_update_new_Nil: "md5_update md5_new [] = md5_new"
  by (simp add: md5_update_def md5_new_def md5_blocks.simps)

lemma md5_streaming:
  "md5_hexdigest (foldl md5_update md5_new (read_chunks 4096 c)) = md5_hex c"
proof -
  have "foldl md5_update md5_new (read_chunks 4096 c) =
        foldl md5_update (md5_update md5_new []) (read_chunks 4096 c)"
    by (simp add: md5_update_new_Nil)
  also have "\<dots> = md5_update md5_new c"
    by (simp only: foldl_md5_update) (simp add: concat_read_chunks)
  finally show ?thesis by (simp add: md5_hex_def)
qed

lemma calculate_md5_File:
  "lookup t p = Some (File c m) \<Longrightarrow> calculate_md5 t p = Inr (md5_hex c)"
  by (simp add: calculate_md5_def open_rb_def md5_streaming)

lemma calculate_md5_Dir:
  "lookup t p = Some (Dir es) \<Longrightarrow> calculate_md5 t p = Inl (IsADirectoryError p)"
  by (simp add: calculate_md5_def open_rb_def)

lemma calculate_md5_None:
  "lookup t p = None \<Longrightarrow> calculate_md5 t p = Inl (no_entry t p)"
  by (simp add: calculate_md5_def open_rb_def)

lemma md5_wang_a: "md5_hex wang_a = ''79054025255fb1a26e4bc422aef54eb4''"
  by code_simp

lemma md5_wang_b: "md5_hex wang_b = ''79054025255fb1a26e4bc422aef54eb4''"
  by code_simp

lemma wang_differ: "wang_a \<noteq> wang_b"
  by (simp add: wang_a_def wang_b_def)

section \<open>Loops over the entries of a directory\<close>

lemma separate_child: "separate p q \<Longrightarrow> separate (p @ [x]) (q @ [x])"
  by (auto simp: separate_def prefix_snoc dest: append_prefixD)

lemma separate_sym: "separate p q \<Longrightarrow> separate q p"
  by (auto simp: separate_def)

lemma separate_under: "separate p q \<Longrightarrow> \<not> prefix q (p @ r) \<and> \<not> prefix (p @ r) q"
proof -
  assume sep: "separate p q"
  have "prefix p (p @ r)" by simp
  then have "prefix q (p @ r) \<Longrightarrow> prefix q p \<or> prefix p q"
    using prefix_same_cases by blast
  moreover have "prefix (p @ r) q \<Longrightarrow> prefix p q"
    by (rule append_prefixD)
  ultimately show ?thesis using sep by (auto simp: separate_def)
qed

lemma separate_append: "separate p q \<Longrightarrow> separate p (q @ r)"
  using separate_under [of q p r] by (auto simp: separate_def)

lemma listdir_names:
  "listdir t p = Inr ns \<Longrightarrow> x \<in> set ns \<longleftrightarrow> view t (p @ [x]) \<noteq> Absent"
proof -
  assume l: "listdir t p = Inr ns"
  then obtain es where es: "lookup t p = Some (Dir es)" "ns = map fst es"
    by (auto simp: listdir_def split: option.splits node.splits)
  have "x \<in> set ns \<longleftrightarrow> map_of es x \<noteq> None"
    using es(2) by (simp add: map_of_eq_None_iff)
  also have "\<dots> \<longleftrightarrow> view t (p @ [x]) \<noteq> Absent"
    using es(1) by (auto simp: view_def lookup_append split: option.splits node.splits)
  finally show ?thesis .
qed

lemma untouched_refl [simp]: "untouched p s s"
  by (simp add: untouched_def)

lemma untouched_trans: "untouched p s s' \<Longrightarrow> untouched p s' s'' \<Longrightarrow> untouched p s s''"
  unfolding untouched_def by (elim conjE exE) (intro conjI, simp, fastforce)

lemma within_untouched:
  assumes "within log_file (p @ [y]) s s'" and "x \<noteq> y" and "separate log_file p"
  shows "untouched (p @ [x]) s s'"
proof -
  have inc: "\<not> prefix (p @ [y]) (p @ [x])" "\<not> prefix (p @ [x]) (p @ [y])"
    using assms(2) by auto
  have "\<not> prefix (p @ [x]) r" if "prefix (p @ [y]) r" for r
    using that inc prefix_same_cases by blast
  then have ops: "\<not> prefix (p @ [x]) (op_path op)" if "prefix (p @ [y]) (op_path op)" for op
    using that by blast
  have "separate log_file (p @ [x])" using assms(3) by (rule separate_append)
  with assms(1) obtain ops' where
    l: "lookup (fs s') (p @ [x]) = lookup (fs s) (p @ [x])" and
    o: "log s' = log s @ ops'" "\<forall>op \<in> set ops'. prefix (p @ [y]) (op_path op)"
    unfolding within_def using inc by blast
  show ?thesis
    unfolding untouched_def using l o ops by blast
qed

lemma untouched_view: "untouched p s s' \<Longrightarrow> view (fs s') (p @ r) = view (fs s) (p @ r)"
  unfolding untouched_def by (elim conjE) (rule view_of_lookup)

lemma below_source:
  assumes "below log_file replica s s'" and "separate source replica" and "separate log_file source"
  shows "lookup (fs s') (source @ r) = lookup (fs s) (source @ r)"
  using assms separate_under [of source replica r] separate_append [of log_file source r]
  unfolding below_def by blast

lemma below_source_view:
  "below log_file replica s s' \<Longrightarrow> separate source replica \<Longrightarrow> separate log_file source \<Longrightarrow>
   view (fs s') (source @ r) = view (fs s) (source @ r)"
  by (simp add: view_def below_source)

lemma below_log: "below log_file p s s' \<Longrightarrow> log s' = log s @ new_ops s s'"
  by (auto simp: below_def new_ops_def)

lemma within_log: "within log_file p s s' \<Longrightarrow> log s' = log s @ new_ops s s'"
  by (auto simp: within_def new_ops_def)

lemma untouched_log: "untouched p s s' \<Longrightarrow> log s' = log s @ new_ops s s'"
  by (auto simp: untouched_def new_ops_def)

lemma new_ops_trans:
  "log s1 = log s @ new_ops s s1 \<Longrightarrow> log s2 = log s1 @ new_ops s1 s2 \<Longrightarrow>
   new_ops s s2 = new_ops s s1 @ new_ops s1 s2"
proof -
  assume a: "log s1 = log s @ new_ops s s1" and b: "log s2 = log s1 @ new_ops s1 s2"
  have "log s2 = log s @ (new_ops s s1 @ new_ops s1 s2)"
    using a b by simp
  then show ?thesis
    unfolding new_ops_def [of s s2] by (metis append_eq_conv_conj)
qed

lemma below_ops:
  "below log_file p s s' \<Longrightarrow> op \<in> set (new_ops s s') \<Longrightarrow> strict_prefix p (op_path op)"
  by (auto simp: below_def new_ops_def)

lemma within_ops:
  "within log_file p s s' \<Longrightarrow> op \<in> set (new_ops s s') \<Longrightarrow> prefix p (op_path op)"
  by (auto simp: within_def new_ops_def)

lemma untouched_ops: "untouched p s s' \<Longrightarrow> op \<in> set (new_ops s s') \<Longrightarrow> \<not> prefix p (op_path op)"
  by (auto simp: untouched_def new_ops_def)

lemma for_each_append:
  "for_each body (ys @ zs) s =
     (case for_each body ys s of (None, s1) \<Rightarrow> for_each body zs s1 | (Some e, s1) \<Rightarrow> (Some e, s1))"
  by (induction ys arbitrary: s) (auto split: prod.splits option.splits)

lemma for_each_untouched:
  assumes body: "\<And>y s r s'. isdir (fs s) replica \<Longrightarrow> body y s = (r, s') \<Longrightarrow>
                   within log_file (replica @ [y]) s s'"
    and out: "separate log_file replica"
  shows "isdir (fs s) replica \<Longrightarrow> x \<notin> set xs \<Longrightarrow> for_each body xs s = (r, s') \<Longrightarrow>
         untouched (replica @ [x]) s s'"
proof (induction xs arbitrary: s)
  case Nil
  then show ?case by simp
next
  case (Cons y ys)
  obtain r1 s1 where b: "body y s = (r1, s1)" by (cases "body y s")
  have w: "within log_file (replica @ [y]) s s1" using body [OF Cons.prems(1) b] .
  have u: "untouched (replica @ [x]) s s1"
    using w Cons.prems(2) out by (intro within_untouched [where log_file = log_file]) auto
  show ?case
  proof (cases r1)
    case None
    with b Cons.prems(3) have "for_each body ys s1 = (r, s')" by simp
    moreover have "isdir (fs s1) replica"
      using below_isdir [OF within_child_imp_below [OF w]] Cons.prems(1) by simp
    ultimately have "untouched (replica @ [x]) s1 s'"
      using Cons.prems(2) by (intro Cons.IH) auto
    with u show ?thesis by (rule untouched_trans)
  next
    case (Some e)
    with b Cons.prems(3) have "s' = s1" by simp
    with u show ?thesis by simp
  qed
qed

lemma for_each_split:
  assumes "for_each body (ys @ y # zs) s = (None, s')"
  shows "\<exists>sa sb. for_each body ys s = (None, sa) \<and> body y sa = (None, sb) \<and>
           for_each body zs sb = (None, s')"
  using assms unfolding for_each_append
  by (auto split: prod.splits option.splits)

lemma for_each_item:
  assumes body: "\<And>y s r s'. isdir (fs s) replica \<Longrightarrow> body y s = (r, s') \<Longrightarrow>
                   within log_file (replica @ [y]) s s'"
    and out: "separate log_file replica"
    and dir: "isdir (fs s) replica"
    and xs: "distinct xs" "x \<in> set xs"
    and run: "for_each body xs s = (None, s')"
  shows "\<exists>sa sb. body x sa = (None, sb) \<and>
           below log_file replica s sa \<and> untouched (replica @ [x]) s sa \<and>
           below log_file replica sb s' \<and> untouched (replica @ [x]) sb s'"
proof -
  from xs(2) obtain ys zs where split: "xs = ys @ x # zs"
    by (meson split_list)
  with xs(1) have nin: "x \<notin> set ys" "x \<notin> set zs" by auto
  from for_each_split [OF run [unfolded split]] obtain sa sb where
    a: "for_each body ys s = (None, sa)" and b: "body x sa = (None, sb)" and
    c: "for_each body zs sb = (None, s')" by blast
  have ba: "below log_file replica s sa"
    by (rule for_each_below [of replica body, OF _ dir a]) (rule body)
  have ua: "untouched (replica @ [x]) s sa"
    by (rule for_each_untouched [of replica body, OF _ out dir nin(1) a]) (rule body)
  have da: "isdir (fs sa) replica" using below_isdir [OF ba] dir by simp
  have wb: "within log_file (replica @ [x]) sa sb" using body [OF da b] .
  have db: "isdir (fs sb) replica"
    using below_isdir [OF within_child_imp_below [OF wb]] da by simp
  have bc: "below log_file replica sb s'"
    by (rule for_each_below [of replica body, OF _ db c]) (rule body)
  have uc: "untouched (replica @ [x]) sb s'"
    by (rule for_each_untouched [of replica body, OF _ out db nin(2) c]) (rule body)
  from b ba ua bc uc show ?thesis by blast
qed

lemma for_each_failure:
  assumes "for_each body xs s = (Some e, s')"
  shows "\<exists>ys y zs sa. xs = ys @ y # zs \<and> for_each body ys s = (None, sa) \<and> body y sa = (Some e, s')"
  using assms
proof (induction xs arbitrary: s)
  case Nil
  then show ?case by simp
next
  case (Cons x xs)
  obtain r1 s1 where b: "body x s = (r1, s1)" by (cases "body x s")
  show ?case
  proof (cases r1)
    case None
    with b Cons.prems have "for_each body xs s1 = (Some e, s')" by simp
    from Cons.IH [OF this] obtain ys y zs sa where
      "xs = ys @ y # zs" "for_each body ys s1 = (None, sa)" "body y sa = (Some e, s')" by blast
    then have "x # xs = (x # ys) @ y # zs \<and> for_each body (x # ys) s = (None, sa) \<and>
               body y sa = (Some e, s')"
      using b None by simp
    then show ?thesis by blast
  next
    case (Some e')
    with b Cons.prems have "x # xs = [] @ x # xs \<and> for_each body [] s = (None, s) \<and>
               body x s = (Some e, s')" by simp
    then show ?thesis by blast
  qed
qed

section \<open>What one loop iteration does\<close>

lemma new_ops_self [simp]: "new_ops s s = []"
  by (simp add: new_ops_def)

lemma logged_ops:
  "log_operation clock m log_file (s\<lparr>fs := t\<rparr>) = (r, s') \<Longrightarrow> new_ops s s' = [m]"
  using log_operation_log [of clock m log_file "s\<lparr>fs := t\<rparr>" r s']
  by (simp add: new_ops_def)

lemma logged_lookup:
  "log_operation clock m log_file (s\<lparr>fs := t\<rparr>) = (r, s') \<Longrightarrow> separate log_file q \<Longrightarrow>
   lookup (fs s') q = lookup t q"
  using log_operation_frame(2) [of clock m log_file "s\<lparr>fs := t\<rparr>" r s' q] by simp

lemma logged_view:
  "log_operation clock m log_file (s\<lparr>fs := t\<rparr>) = (r, s') \<Longrightarrow> separate log_file q \<Longrightarrow>
   view (fs s') q = view t q"
  by (simp add: view_def logged_lookup)

lemma sync_item_success:
  assumes rep: "isdir (fs s) replica"
    and out: "separate log_file replica"
    and run: "sync_item clock self source replica log_file x s = (None, s')"
  shows "(view (fs s) (source @ [x]) = Directory \<and> view (fs s) (replica @ [x]) = Absent \<and>
          lookup (fs s') (replica @ [x]) = lookup (fs s) (source @ [x]) \<and>
          new_ops s s' = [DirectoryCreated (replica @ [x])]) \<or>
         (view (fs s) (source @ [x]) = Directory \<and> view (fs s) (replica @ [x]) \<noteq> Absent \<and>
          self (source @ [x]) (replica @ [x]) log_file s = (None, s')) \<or>
         (\<exists>c. view (fs s) (source @ [x]) = Regular c \<and>
              (view (fs s) (replica @ [x]) = Absent \<or>
               (\<exists>c'. view (fs s) (replica @ [x]) = Regular c' \<and> md5_hex c' \<noteq> md5_hex c)) \<and>
              view (fs s') (replica @ [x]) = Regular c \<and>
              new_ops s s' = [FileCopied (replica @ [x])]) \<or>
         (\<exists>c c'. view (fs s) (source @ [x]) = Regular c \<and> view (fs s) (replica @ [x]) = Regular c' \<and>
              md5_hex c' = md5_hex c \<and> s' = s)"
proof (cases "isdir (fs s) (source @ [x])")
  case True
  have outx: "separate log_file (replica @ [x])" using out by (rule separate_append)
  show ?thesis
  proof (cases "path_exists (fs s) (replica @ [x])")
    case ex: True
    with True run show ?thesis
      by (simp add: sync_item_dir_old isdir_view path_exists_view)
  next
    case ne: False
    from run obtain t where ct: "copytree (source @ [x]) (replica @ [x]) (fs s) = Inr t"
      and s': "log_operation clock (DirectoryCreated (replica @ [x])) log_file (s\<lparr>fs := t\<rparr>) = (None, s')"
      unfolding sync_item_dir_new [OF True ne] by (auto split: sum.splits)
    from copytree_result [OF ct rep ne] obtain es where
      es: "lookup (fs s) (source @ [x]) = Some (Dir es)"
        "t = bind_at (replica @ [x]) (Some (Dir es)) (bind_at (replica @ [x]) (Some (Dir [])) (fs s))"
      by blast
    have "lookup t (replica @ [x]) = Some (Dir es)"
      unfolding es(2) using rep by (rule bind_at_here2)
    with True ne es logged_ops [OF s'] logged_lookup [OF s' outx] show ?thesis
      by (simp add: isdir_view path_exists_view)
  qed
next
  case False
  have outx: "separate log_file (replica @ [x])" using out by (rule separate_append)
  have copied: ?thesis
    if cp: "do_copy clock (source @ [x]) (replica @ [x]) log_file s = (None, s')"
      and nd: "\<not> isdir (fs s) (replica @ [x])"
      and why: "view (fs s) (replica @ [x]) = Absent \<or>
            (\<exists>c c'. view (fs s) (source @ [x]) = Regular c \<and> view (fs s) (replica @ [x]) = Regular c' \<and>
                    md5_hex c' \<noteq> md5_hex c)"
  proof -
    from cp obtain t where c2: "copy2 (source @ [x]) (replica @ [x]) (fs s) = Inr t"
      and s': "log_operation clock (FileCopied (replica @ [x])) log_file (s\<lparr>fs := t\<rparr>) = (None, s')"
      unfolding do_copy_def by (auto split: sum.splits)
    from copy2_result [OF c2 nd] obtain c m where
      cm: "lookup (fs s) (source @ [x]) = Some (File c m)"
        "t = bind_at (replica @ [x]) (Some (File c m)) (fs s)"
      by auto
    have "lookup t (replica @ [x]) = Some (File c m)"
      unfolding cm(2) using rep by (rule bind_at_here)
    then have "view (fs s') (replica @ [x]) = Regular c"
      using logged_lookup [OF s' outx] by (simp add: view_def)
    moreover have "view (fs s) (source @ [x]) = Regular c"
      using cm(1) by (simp add: view_def)
    ultimately show ?thesis using why logged_ops [OF s'] by auto
  qed
  show ?thesis
  proof (cases "path_exists (fs s) (replica @ [x])")
    case ne: False
    show ?thesis
    proof (rule copied)
      show "do_copy clock (source @ [x]) (replica @ [x]) log_file s = (None, s')"
        using run False ne by (simp add: sync_item_file_new)
      show "\<not> isdir (fs s) (replica @ [x])" using ne by (rule not_exists_not_isdir)
      show "view (fs s) (replica @ [x]) = Absent \<or>
            (\<exists>c c'. view (fs s) (source @ [x]) = Regular c \<and> view (fs s) (replica @ [x]) = Regular c' \<and>
                    md5_hex c' \<noteq> md5_hex c)"
        using ne by (simp add: path_exists_view)
    qed
  next
    case ex: True
    from run obtain h1 h2 where
      h1: "calculate_md5 (fs s) (source @ [x]) = Inr h1" and
      h2: "calculate_md5 (fs s) (replica @ [x]) = Inr h2" and
      rest: "(if h1 \<noteq> h2 then do_copy clock (source @ [x]) (replica @ [x]) log_file s else (None, s))
               = (None, s')"
      unfolding sync_item_file_old [OF False ex] by (auto split: sum.splits)
    from calculate_md5_Inr [OF h1] obtain c m where c: "lookup (fs s) (source @ [x]) = Some (File c m)"
      by blast
    from calculate_md5_Inr [OF h2] obtain c' m' where c': "lookup (fs s) (replica @ [x]) = Some (File c' m')"
      by blast
    have hh: "h1 = md5_hex c" "h2 = md5_hex c'"
      using h1 h2 by (simp_all add: calculate_md5_File [OF c] calculate_md5_File [OF c'])
    have vs: "view (fs s) (source @ [x]) = Regular c" "view (fs s) (replica @ [x]) = Regular c'"
      using c c' by (simp_all add: view_def)
    show ?thesis
    proof (cases "h1 = h2")
      case True
      with rest hh vs show ?thesis by auto
    next
      case ne: False
      show ?thesis
      proof (rule copied)
        show "do_copy clock (source @ [x]) (replica @ [x]) log_file s = (None, s')"
          using rest ne by simp
        show "\<not> isdir (fs s) (replica @ [x])" using c' by (rule isdir_not_File)
        show "view (fs s) (replica @ [x]) = Absent \<or>
            (\<exists>c c'. view (fs s) (source @ [x]) = Regular c \<and> view (fs s) (replica @ [x]) = Regular c' \<and>
                    md5_hex c' \<noteq> md5_hex c)"
          using vs hh ne by auto
      qed
    qed
  qed
qed

lemma prune_item_kept:
  "x \<in> set source_files \<Longrightarrow> prune_item clock source_files replica log_file x s = (None, s)"
  by (simp add: prune_item_def)

lemma prune_item_success:
  assumes "x \<notin> set source_files"
    and out: "separate log_file replica"
    and run: "prune_item clock source_files replica log_file x s = (None, s')"
  shows "view (fs s') (replica @ [x]) = Absent \<and>
         ((view (fs s) (replica @ [x]) = Directory \<and> new_ops s s' = [DirectoryRemoved (replica @ [x])]) \<or>
          (\<exists>c. view (fs s) (replica @ [x]) = Regular c \<and> new_ops s s' = [FileRemoved (replica @ [x])]))"
proof (cases "isdir (fs s) (replica @ [x])")
  case True
  have outx: "separate log_file (replica @ [x])" using out by (rule separate_append)
  from True assms obtain t where t: "rmtree (replica @ [x]) (fs s) = Inr t"
    and s': "log_operation clock (DirectoryRemoved (replica @ [x])) log_file (s\<lparr>fs := t\<rparr>) = (None, s')"
    by (auto simp: prune_item_def Let_def split: sum.splits)
  from rmtree_result [OF t] have t': "t = bind_at (replica @ [x]) None (fs s)" by simp
  have "isdir (fs s) replica" using True by (intro isdir_parent) (auto simp: isdir_def split: option.splits)
  then have "lookup t (replica @ [x]) = None" unfolding t' by (rule bind_at_here)
  with True logged_ops [OF s'] logged_lookup [OF s' outx] show ?thesis
    by (simp add: isdir_view view_def)
next
  case False
  have outx: "separate log_file (replica @ [x])" using out by (rule separate_append)
  from False assms obtain t where t: "remove (replica @ [x]) (fs s) = Inr t"
    and s': "log_operation clock (FileRemoved (replica @ [x])) log_file (s\<lparr>fs := t\<rparr>) = (None, s')"
    by (auto simp: prune_item_def Let_def split: sum.splits)
  from remove_result [OF t] obtain c m where t': "t = bind_at (replica @ [x]) None (fs s)"
    and cm: "lookup (fs s) (replica @ [x]) = Some (File c m)" by blast
  have "isdir (fs s) replica" using cm by (intro isdir_parent) auto
  then have "lookup t (replica @ [x]) = None" unfolding t' by (rule bind_at_here)
  with cm logged_ops [OF s'] logged_lookup [OF s' outx] show ?thesis by (simp add: view_def)
qed
section \<open>Operations that are due\<close>

lemma converged_entry_Absent [simp]:
  "converged_entry Absent before after \<longleftrightarrow> after = Absent"
  "converged_entry src Absent after \<longleftrightarrow> after = src"
  by (cases src; simp add: converged_entry_def)+

lemma converged_entry_Directory [simp]:
  "converged_entry Directory before after \<longleftrightarrow> after = Directory"
  "converged_entry src Directory after \<longleftrightarrow> after = src"
  by (cases src; simp add: converged_entry_def)+

lemma converged_entry_Regular [simp]:
  "converged_entry (Regular c) (Regular c') after \<longleftrightarrow>
     after = (if md5_hex c' = md5_hex c then Regular c' else Regular c)"
  by (simp add: converged_entry_def)

lemma due_iff:
  "op_path m = replica @ q \<Longrightarrow> q \<noteq> [] \<Longrightarrow> due t source replica m \<longleftrightarrow> due_at t source replica q m"
  by (auto simp: due_def)

lemma due_at_cong:
  assumes "\<And>r. view t (source @ r) = view t' (source @ r)"
    and "\<And>r. view t (replica @ r) = view t' (replica @ r)"
  shows "due_at t source replica q m = due_at t' source replica q m"
  by (cases m) (simp_all add: assms)

lemma due_at_child:
  assumes "q \<noteq> []"
  shows "due_at t source replica (x # q) m = due_at t (source @ [x]) (replica @ [x]) q m"
  using assms by (cases m) simp_all

lemma due_at_top_created:
  assumes "view t (source @ [x]) = Directory" "view t (replica @ [x]) = Absent"
    "view t replica = Directory" "op_path m = replica @ x # q"
  shows "due_at t source replica (x # q) m \<longleftrightarrow> m = DirectoryCreated (replica @ [x])"
proof (cases "q = []")
  case True
  with assms show ?thesis by (cases m) auto
next
  case False
  then have "view t (replica @ x # butlast q) = Absent" "view t (replica @ x # q) = Absent"
    using view_append_Absent [OF assms(2)] by simp_all
  with assms False show ?thesis by (cases m) auto
qed

lemma due_at_top_dir:
  assumes "view t (source @ [x]) = Directory" "view t (replica @ [x]) \<noteq> Absent"
  shows "\<not> due_at t source replica [x] m"
  using assms by (cases m) auto

lemma due_at_top_copied:
  assumes "view t (source @ [x]) = Regular c"
    "view t (replica @ [x]) = Absent \<or> (\<exists>c'. view t (replica @ [x]) = Regular c' \<and> md5_hex c' \<noteq> md5_hex c)"
    "view t replica = Directory" "op_path m = replica @ x # q"
  shows "due_at t source replica (x # q) m \<longleftrightarrow> m = FileCopied (replica @ [x])"
proof (cases "q = []")
  case True
  with assms show ?thesis by (cases m) auto
next
  case False
  have "view t (source @ x # q) = Absent"
    using view_append_Regular [OF assms(1) False] by simp
  moreover have "view t (replica @ x # q) = Absent"
    using assms(2) view_append_Regular [of t "replica @ [x]" _ q] view_append_Absent [of t "replica @ [x]" q] False
    by auto
  ultimately show ?thesis using False assms(4) by (cases m) auto
qed

lemma due_at_top_equal:
  assumes "view t (source @ [x]) = Regular c" "view t (replica @ [x]) = Regular c'"
    "md5_hex c' = md5_hex c"
  shows "\<not> due_at t source replica (x # q) m"
proof (cases "q = []")
  case True
  with assms show ?thesis by (cases m) auto
next
  case False
  have "view t (source @ x # q) = Absent"
    using view_append_Regular [OF assms(1) False] by simp
  moreover have "view t (replica @ x # q) = Absent"
    using view_append_Regular [OF assms(2) False] by simp
  ultimately show ?thesis by (cases m) auto
qed

lemma due_at_top_removed_dir:
  assumes "view t (source @ [x]) = Absent" "view t (replica @ [x]) = Directory"
    "view t source = Directory" "op_path m = replica @ x # q"
  shows "due_at t source replica (x # q) m \<longleftrightarrow> m = DirectoryRemoved (replica @ [x])"
proof (cases "q = []")
  case True
  with assms show ?thesis by (cases m) auto
next
  case False
  then have "view t (source @ x # butlast q) = Absent" "view t (source @ x # q) = Absent"
    using view_append_Absent [OF assms(1)] by simp_all
  with assms False show ?thesis by (cases m) auto
qed

lemma due_at_top_removed_file:
  assumes "view t (source @ [x]) = Absent" "view t (replica @ [x]) = Regular c"
    "view t source = Directory" "op_path m = replica @ x # q"
  shows "due_at t source replica (x # q) m \<longleftrightarrow> m = FileRemoved (replica @ [x])"
proof (cases "q = []")
  case True
  with assms show ?thesis by (cases m) auto
next
  case False
  then have "view t (source @ x # butlast q) = Absent" "view t (source @ x # q) = Absent"
    using view_append_Absent [OF assms(1)] by simp_all
  with assms False show ?thesis by (cases m) auto
qed

lemma due_at_top_none:
  assumes "view t (source @ [x]) = Absent" "view t (replica @ [x]) = Absent"
  shows "\<not> due_at t source replica (x # q) m"
proof -
  have "view t (source @ x # q) = Absent" "view t (replica @ x # q) = Absent"
    using view_append_Absent [OF assms(1), of q] view_append_Absent [OF assms(2), of q] by simp_all
  then show ?thesis by (cases m) auto
qed

section \<open>One directory level\<close>

lemma count_untouched:
  "untouched p s s' \<Longrightarrow> prefix p (op_path m) \<Longrightarrow> count_list (new_ops s s') m = 0"
  using untouched_ops [of p s s' m] by (auto simp: count_list_0_iff)

lemma prune_kept_untouched:
  "separate log_file replica \<Longrightarrow> x \<in> set source_files \<Longrightarrow>
   for_each (prune_item clock source_files replica log_file) ys s = (r, s') \<Longrightarrow>
   untouched (replica @ [x]) s s'"
proof (induction ys arbitrary: s)
  case Nil
  then show ?case by simp
next
  case (Cons y ys)
  obtain r1 s1 where b: "prune_item clock source_files replica log_file y s = (r1, s1)"
    by (cases "prune_item clock source_files replica log_file y s")
  have u: "untouched (replica @ [x]) s s1"
  proof (cases "y \<in> set source_files")
    case True
    with b show ?thesis by (simp add: prune_item_kept)
  next
    case False
    with Cons.prems(2) have "x \<noteq> y" by auto
    with prune_item_within [OF b] show ?thesis using Cons.prems(1) by (rule within_untouched)
  qed
  show ?case
  proof (cases r1)
    case None
    with b Cons.prems(3) have "for_each (prune_item clock source_files replica log_file) ys s1 = (r, s')" by simp
    from Cons.IH [OF Cons.prems(1,2) this] u show ?thesis by (rule untouched_trans [rotated])
  next
    case (Some e)
    with b Cons.prems(3) have "s' = s1" by simp
    with u show ?thesis by simp
  qed
qed

lemma level_child:
  assumes sep: "separate source replica"
    and outs: "separate log_file source" and out: "separate log_file replica"
    and ord: "iteration_order ord"
    and IH: "\<And>s s' x. self (source @ [x]) (replica @ [x]) log_file s = (None, s') \<Longrightarrow>
               reconciled (source @ [x]) (replica @ [x]) s s'"
    and selfb: "\<And>src rep s r s'. self src rep log_file s = (r, s') \<Longrightarrow> below log_file rep s s'"
    and ls: "listdir (fs s) source = Inr a" and lr: "listdir (fs s) replica = Inr b"
    and l1: "for_each (sync_item clock self source replica log_file) (ord a) s = (None, s1)"
    and l2: "for_each (prune_item clock (ord a) replica log_file) (ord b) s1 = (None, s')"
  shows "converged_entry (view (fs s) (source @ x # q)) (view (fs s) (replica @ x # q))
           (view (fs s') (replica @ x # q)) \<and>
         (op_path m = replica @ x # q \<longrightarrow>
            count_list (new_ops s s') m = (if due_at (fs s) source replica (x # q) m then 1 else 0))"
proof -
  have D: "isdir (fs s) replica" using lr by (rule listdir_Inr_isdir)
  have DS: "view (fs s) source = Directory"
    using listdir_Inr_isdir [OF ls] by (simp add: isdir_view)
  have DR: "view (fs s) replica = Directory" using D by (simp add: isdir_view)
  have c1: "within log_file (replica @ [y]) u u'"
    if "isdir (fs u) replica" "sync_item clock self source replica log_file y u = (r, u')" for y u r u'
    using that by (intro sync_item_within [where self = self and source = source]) (rule selfb)
  have c2: "within log_file (replica @ [y]) u u'"
    if "isdir (fs u) replica" "prune_item clock (ord a) replica log_file y u = (r, u')" for y u r u'
    using that(2) by (rule prune_item_within)
  have B1: "below log_file replica s s1"
    by (rule for_each_below [of replica "sync_item clock self source replica log_file", OF _ D l1]) (rule c1)
  have D1: "isdir (fs s1) replica" using below_isdir [OF B1] D by simp
  have B2: "below log_file replica s1 s'"
    by (rule for_each_below [of replica "prune_item clock (ord a) replica log_file", OF _ D1 l2]) (rule c2)
  have split: "new_ops s s' = new_ops s s1 @ new_ops s1 s'"
    using below_log [OF B1] below_log [OF B2] by (rule new_ops_trans)
  have dist: "distinct (ord a)" "distinct (ord b)" "set (ord a) = set a" "set (ord b) = set b"
    using ord by (simp_all add: iteration_order_def)
  have in_a: "x \<in> set a \<longleftrightarrow> view (fs s) (source @ [x]) \<noteq> Absent"
    using ls by (rule listdir_names)
  have in_b: "x \<in> set b \<longleftrightarrow> view (fs s) (replica @ [x]) \<noteq> Absent"
    using lr by (rule listdir_names)
  let ?P = "replica @ [x]"
  show ?thesis
  proof (cases "x \<in> set a")
    case True
    then have xa: "x \<in> set (ord a)" using dist by simp
    have "\<exists>sa sb. sync_item clock self source replica log_file x sa = (None, sb) \<and>
           below log_file replica s sa \<and> untouched (replica @ [x]) s sa \<and>
           below log_file replica sb s1 \<and> untouched (replica @ [x]) sb s1"
      by (rule for_each_item [of replica "sync_item clock self source replica log_file", OF _ out D dist(1) xa l1])
        (rule c1)
    then obtain sa sb where
      item: "sync_item clock self source replica log_file x sa = (None, sb)" and
      bsa: "below log_file replica s sa" and usa: "untouched ?P s sa" and
      bsb: "below log_file replica sb s1" and usb: "untouched ?P sb s1" by blast
    have u2: "untouched ?P s1 s'" using out xa l2 by (rule prune_kept_untouched)
    have Dsa: "isdir (fs sa) replica" using below_isdir [OF bsa] D by simp
    have wab: "within log_file ?P sa sb" using Dsa item by (rule c1)
    have vs: "view (fs sa) (source @ x # r) = view (fs s) (source @ x # r)" for r
      using below_source_view [OF bsa sep outs, of "x # r"] .
    have vr: "view (fs sa) (replica @ x # r) = view (fs s) (replica @ x # r)" for r
      using untouched_view [OF usa, of r] by simp
    have vr': "view (fs s') (replica @ x # r) = view (fs sb) (replica @ x # r)" for r
      using untouched_view [OF usb, of r] untouched_view [OF u2, of r] by simp
    have cnt: "count_list (new_ops s s') m = count_list (new_ops sa sb) m"
      if "op_path m = replica @ x # q"
    proof -
      have p: "prefix ?P (op_path m)" using that by simp
      have "new_ops s s1 = new_ops s sa @ new_ops sa sb @ new_ops sb s1"
        using new_ops_trans [OF below_log [OF bsa] within_log [OF wab]]
          new_ops_trans [OF _ untouched_log [OF usb], of s]
          below_log [OF bsa] within_log [OF wab]
        by (metis append.assoc)
      then show ?thesis
        using split count_untouched [OF usa p] count_untouched [OF usb p] count_untouched [OF u2 p]
        by simp
    qed
    from sync_item_success [OF Dsa out item]
    consider
      (A) "view (fs sa) (source @ [x]) = Directory" "view (fs sa) (replica @ [x]) = Absent"
          "lookup (fs sb) (replica @ [x]) = lookup (fs sa) (source @ [x])"
          "new_ops sa sb = [DirectoryCreated (replica @ [x])]"
    | (B) "view (fs sa) (source @ [x]) = Directory" "view (fs sa) (replica @ [x]) \<noteq> Absent"
          "self (source @ [x]) (replica @ [x]) log_file sa = (None, sb)"
    | (C) c where "view (fs sa) (source @ [x]) = Regular c"
          "view (fs sa) (replica @ [x]) = Absent \<or>
             (\<exists>c'. view (fs sa) (replica @ [x]) = Regular c' \<and> md5_hex c' \<noteq> md5_hex c)"
          "view (fs sb) (replica @ [x]) = Regular c"
          "new_ops sa sb = [FileCopied (replica @ [x])]"
    | (E) c c' where "view (fs sa) (source @ [x]) = Regular c" "view (fs sa) (replica @ [x]) = Regular c'"
          "md5_hex c' = md5_hex c" "sb = sa"
      by blast
    then show ?thesis
    proof cases
      case A
      have "view (fs sb) (replica @ x # q) = view (fs sa) (source @ x # q)"
        using view_of_lookup [OF A(3), of q] by simp
      then have 1: "view (fs s') (replica @ x # q) = view (fs s) (source @ x # q)"
        by (simp add: vr' vs)
      have 2: "due_at (fs s) source replica (x # q) m \<longleftrightarrow> m = DirectoryCreated (replica @ [x])"
        if "op_path m = replica @ x # q"
        using A(1,2) vs [of "[]"] vr [of "[]"] DR that by (intro due_at_top_created) simp_all
      have "view (fs s) (replica @ x # q) = Absent"
        using view_append_Absent [of "fs s" "replica @ [x]" q] A(2) vr [of "[]"] by simp
      then show ?thesis using 1 2 cnt A(4) by auto
    next
      case B
      from IH [OF B(3)] have rec: "reconciled (source @ [x]) (replica @ [x]) sa sb" .
      then have "converged_entry (view (fs sa) ((source @ [x]) @ q)) (view (fs sa) ((replica @ [x]) @ q))
                   (view (fs sb) ((replica @ [x]) @ q))"
        unfolding reconciled_def converged_def by blast
      then have 1: "converged_entry (view (fs s) (source @ x # q)) (view (fs s) (replica @ x # q))
           (view (fs s') (replica @ x # q))"
        by (simp add: vs vr vr')
      have 2: "count_list (new_ops sa sb) m = (if due_at (fs s) source replica (x # q) m then 1 else 0)"
        if mp: "op_path m = replica @ x # q"
      proof (cases "q = []")
        case True
        have "\<not> strict_prefix (replica @ [x]) (op_path m)" using mp True by simp
        then have "m \<notin> set (new_ops sa sb)"
          using below_ops [OF selfb [OF B(3)], of m] by blast
        moreover have "\<not> due_at (fs s) source replica [x] m"
          using B(1,2) vs [of "[]"] vr [of "[]"] by (intro due_at_top_dir) simp_all
        ultimately show ?thesis using True by (simp add: count_list_0_iff)
      next
        case False
        have "count_list (new_ops sa sb) m = (if due (fs sa) (source @ [x]) (replica @ [x]) m then 1 else 0)"
          using rec unfolding reconciled_def by blast
        also have "due (fs sa) (source @ [x]) (replica @ [x]) m \<longleftrightarrow>
                   due_at (fs sa) (source @ [x]) (replica @ [x]) q m"
          using mp False by (intro due_iff) simp_all
        also have "\<dots> \<longleftrightarrow> due_at (fs s) (source @ [x]) (replica @ [x]) q m"
          by (rule due_at_cong) (simp_all add: vs vr)
        also have "\<dots> \<longleftrightarrow> due_at (fs s) source replica (x # q) m"
          using False by (simp add: due_at_child)
        finally show ?thesis .
      qed
      show ?thesis using 1 2 cnt by auto
    next
      case C
      have src: "view (fs s) (source @ [x]) = Regular c" using C(1) vs [of "[]"] by simp
      have 1: "converged_entry (view (fs s) (source @ x # q)) (view (fs s) (replica @ x # q))
           (view (fs s') (replica @ x # q))"
      proof (cases "q = []")
        case True
        then show ?thesis using src C(2,3) vr [of "[]"] vr' [of "[]"] by auto
      next
        case False
        have "view (fs s) (source @ x # q) = Absent"
          using view_append_Regular [OF src False] by simp
        moreover have "view (fs sb) (replica @ x # q) = Absent"
          using view_append_Regular [OF C(3) False] by simp
        ultimately show ?thesis by (simp add: vr')
      qed
      have 2: "due_at (fs s) source replica (x # q) m \<longleftrightarrow> m = FileCopied (replica @ [x])"
        if "op_path m = replica @ x # q"
        using src C(2) vr [of "[]"] DR that by (intro due_at_top_copied) simp_all
      show ?thesis using 1 2 cnt C(4) by auto
    next
      case E
      have src: "view (fs s) (source @ [x]) = Regular c" using E(1) vs [of "[]"] by simp
      have rep: "view (fs s) (replica @ [x]) = Regular c'" using E(2) vr [of "[]"] by simp
      have same: "view (fs s') (replica @ x # q) = view (fs s) (replica @ x # q)"
        using vr' [of q] vr [of q] E(4) by simp
      have 1: "converged_entry (view (fs s) (source @ x # q)) (view (fs s) (replica @ x # q))
           (view (fs s') (replica @ x # q))"
      proof (cases "q = []")
        case True
        then show ?thesis using src rep same E(3) by simp
      next
        case False
        have "view (fs s) (source @ x # q) = Absent"
          using view_append_Regular [OF src False] by simp
        moreover have "view (fs s) (replica @ x # q) = Absent"
          using view_append_Regular [OF rep False] by simp
        ultimately show ?thesis using same by simp
      qed
      have 2: "\<not> due_at (fs s) source replica (x # q) m"
        using src rep E(3) by (rule due_at_top_equal)
      show ?thesis using 1 2 cnt E(4) by auto
    qed
  next
    case False
    then have xa: "x \<notin> set (ord a)" using dist by simp
    have src: "view (fs s) (source @ [x]) = Absent" using False in_a by simp
    have srcq: "view (fs s) (source @ x # q) = Absent"
      using view_append_Absent [OF src, of q] by simp
    have u1: "untouched ?P s s1"
      by (rule for_each_untouched [of replica "sync_item clock self source replica log_file", OF _ out D xa l1]) (rule c1)
    show ?thesis
    proof (cases "x \<in> set b")
      case True
      then have xb: "x \<in> set (ord b)" using dist by simp
      have "\<exists>sa sb. prune_item clock (ord a) replica log_file x sa = (None, sb) \<and>
           below log_file replica s1 sa \<and> untouched (replica @ [x]) s1 sa \<and>
           below log_file replica sb s' \<and> untouched (replica @ [x]) sb s'"
        by (rule for_each_item [of replica "prune_item clock (ord a) replica log_file", OF _ out D1 dist(2) xb l2])
          (rule c2)
      then obtain sa sb where
        item: "prune_item clock (ord a) replica log_file x sa = (None, sb)" and
        bsa: "below log_file replica s1 sa" and usa: "untouched ?P s1 sa" and
        bsb: "below log_file replica sb s'" and usb: "untouched ?P sb s'" by blast
      have wab: "within log_file ?P sa sb" using item by (rule prune_item_within)
      have vr: "view (fs sa) (replica @ x # r) = view (fs s) (replica @ x # r)" for r
        using untouched_view [OF usa, of r] untouched_view [OF u1, of r] by simp
      have vr': "view (fs s') (replica @ x # r) = view (fs sb) (replica @ x # r)" for r
        using untouched_view [OF usb, of r] by simp
      have cnt: "count_list (new_ops s s') m = count_list (new_ops sa sb) m"
        if "op_path m = replica @ x # q"
      proof -
        have p: "prefix ?P (op_path m)" using that by simp
        have "new_ops s1 s' = new_ops s1 sa @ new_ops sa sb @ new_ops sb s'"
          using new_ops_trans [OF below_log [OF bsa] within_log [OF wab]]
            new_ops_trans [OF _ untouched_log [OF usb], of s1]
            below_log [OF bsa] within_log [OF wab]
          by (metis append.assoc)
        then show ?thesis
          using split count_untouched [OF usa p] count_untouched [OF usb p] count_untouched [OF u1 p]
          by simp
      qed
      from prune_item_success [OF xa out item] have
        gone: "view (fs sb) (replica @ [x]) = Absent" and
        kind: "(view (fs sa) (replica @ [x]) = Directory \<and> new_ops sa sb = [DirectoryRemoved (replica @ [x])]) \<or>
          (\<exists>c. view (fs sa) (replica @ [x]) = Regular c \<and> new_ops sa sb = [FileRemoved (replica @ [x])])"
        by blast+
      have 1: "view (fs s') (replica @ x # q) = Absent"
        using view_append_Absent [OF gone, of q] by (simp add: vr')
      from kind show ?thesis
      proof
        assume k: "view (fs sa) (replica @ [x]) = Directory \<and> new_ops sa sb = [DirectoryRemoved (replica @ [x])]"
        have 2: "due_at (fs s) source replica (x # q) m \<longleftrightarrow> m = DirectoryRemoved (replica @ [x])"
          if "op_path m = replica @ x # q"
          using src k vr [of "[]"] DS that by (intro due_at_top_removed_dir) simp_all
        show ?thesis using 1 2 cnt k srcq by auto
      next
        assume "\<exists>c. view (fs sa) (replica @ [x]) = Regular c \<and> new_ops sa sb = [FileRemoved (replica @ [x])]"
        then obtain c where k: "view (fs sa) (replica @ [x]) = Regular c"
          "new_ops sa sb = [FileRemoved (replica @ [x])]" by blast
        have 2: "due_at (fs s) source replica (x # q) m \<longleftrightarrow> m = FileRemoved (replica @ [x])"
          if "op_path m = replica @ x # q"
          using src k(1) vr [of "[]"] DS that by (intro due_at_top_removed_file [where c = c]) simp_all
        show ?thesis using 1 2 cnt k srcq by auto
      qed
    next
      case nb: False
      then have xb: "x \<notin> set (ord b)" using dist by simp
      have rep: "view (fs s) (replica @ [x]) = Absent" using nb in_b by simp
      have u2: "untouched ?P s1 s'"
        by (rule for_each_untouched [of replica "prune_item clock (ord a) replica log_file", OF _ out D1 xb l2]) (rule c2)
      have "view (fs s') (replica @ x # q) = view (fs s) (replica @ x # q)"
        using untouched_view [OF u1, of q] untouched_view [OF u2, of q] by simp
      then have 1: "view (fs s') (replica @ x # q) = Absent"
        using view_append_Absent [OF rep, of q] by simp
      have 2: "\<not> due_at (fs s) source replica (x # q) m"
        using src rep by (rule due_at_top_none)
      have 3: "count_list (new_ops s s') m = 0" if "op_path m = replica @ x # q"
        using split count_untouched [OF u1, of m] count_untouched [OF u2, of m] that by simp
      show ?thesis using 1 2 3 srcq by auto
    qed
  qed
qed

section \<open>The outcome of a pass that ends normally\<close>

lemma sync_folders_Suc_None:
  assumes "sync_folders ord clock (Suc depth) source replica log_file s = (None, s')"
  shows "\<exists>a b s1. listdir (fs s) source = Inr a \<and> listdir (fs s) replica = Inr b \<and>
           for_each (sync_item clock (sync_folders ord clock depth) source replica log_file) (ord a) s = (None, s1) \<and>
           for_each (prune_item clock (ord a) replica log_file) (ord b) s1 = (None, s')"
  using assms by (auto simp: Let_def split: sum.splits prod.splits option.splits)

lemma sync_folders_reconciled:
  "separate source replica \<Longrightarrow> iteration_order ord \<Longrightarrow>
   separate log_file source \<Longrightarrow> separate log_file replica \<Longrightarrow>
   sync_folders ord clock depth source replica log_file s = (None, s') \<Longrightarrow> reconciled source replica s s'"
proof (induction depth arbitrary: source replica s s')
  case 0
  then show ?case by simp
next
  case (Suc depth)
  from sync_folders_Suc_None [OF Suc.prems(5)] obtain a b s1 where
    ls: "listdir (fs s) source = Inr a" and lr: "listdir (fs s) replica = Inr b" and
    l1: "for_each (sync_item clock (sync_folders ord clock depth) source replica log_file) (ord a) s = (None, s1)" and
    l2: "for_each (prune_item clock (ord a) replica log_file) (ord b) s1 = (None, s')" by blast
  have child: "converged_entry (view (fs s) (source @ x # q)) (view (fs s) (replica @ x # q))
           (view (fs s') (replica @ x # q)) \<and>
         (op_path m = replica @ x # q \<longrightarrow>
            count_list (new_ops s s') m = (if due_at (fs s) source replica (x # q) m then 1 else 0))"
    for x q m
  proof (rule level_child [OF Suc.prems(1,3,4,2) _ _ ls lr l1 l2])
    show "reconciled (source @ [y]) (replica @ [y]) u u'"
      if "sync_folders ord clock depth (source @ [y]) (replica @ [y]) log_file u = (None, u')" for u u' y
      using separate_child [OF Suc.prems(1)] Suc.prems(2)
        separate_append [OF Suc.prems(3)] separate_append [OF Suc.prems(4)] that
      by (rule Suc.IH)
    show "below log_file rep u u'" if "sync_folders ord clock depth src rep log_file u = (r, u')" for src rep u r u'
      using that by (rule sync_folders_below)
  qed
  have bel: "below log_file replica s s'" using Suc.prems(5) by (rule sync_folders_below)
  have conv: "converged_entry (view (fs s) (source @ q)) (view (fs s) (replica @ q))
           (view (fs s') (replica @ q))" for q
  proof (cases q)
    case Nil
    have "view (fs s) source = Directory"
      using listdir_Inr_isdir [OF ls] by (simp add: isdir_view)
    moreover have "view (fs s') replica = Directory"
      using listdir_Inr_isdir [OF lr] below_isdir [OF bel] by (simp add: isdir_view)
    ultimately show ?thesis using Nil by simp
  next
    case (Cons x q')
    then show ?thesis using child [of x q'] by simp
  qed
  have cnt: "count_list (new_ops s s') m = (if due (fs s) source replica m then 1 else 0)" for m
  proof (cases "strict_prefix replica (op_path m)")
    case True
    then obtain x q where p: "op_path m = replica @ x # q"
      by (metis strict_prefixE' append.assoc append_Cons append_Nil)
    have "due (fs s) source replica m \<longleftrightarrow> due_at (fs s) source replica (x # q) m"
      using p by (intro due_iff) simp_all
    then show ?thesis using child [of x q m] p by simp
  next
    case False
    then have "m \<notin> set (new_ops s s')" using below_ops [OF bel] by blast
    moreover have "\<not> due (fs s) source replica m"
      using False by (auto simp: due_def strict_prefix_def)
    ultimately show ?thesis by (simp add: count_list_0_iff)
  qed
  show ?case unfolding reconciled_def converged_def using conv cnt by blast
qed

section \<open>Reading off the outcome of a pass\<close>

lemma reconciled_count:
  assumes "separate source replica" and "iteration_order ord"
    and "separate log_file source" and "separate log_file replica"
    and "sync_folders ord clock depth source replica log_file s = (None, s')"
    and "op_path m = replica @ q" and "q \<noteq> []"
  shows "count_list (new_ops s s') m = (if due_at (fs s) source replica q m then 1 else 0)"
proof -
  have "count_list (new_ops s s') m = (if due (fs s) source replica m then 1 else 0)"
    using sync_folders_reconciled [OF assms(1-5)] unfolding reconciled_def by blast
  then show ?thesis using due_iff [OF assms(6,7)] by simp
qed

lemma reconciled_logged:
  assumes "separate source replica" and "iteration_order ord"
    and "separate log_file source" and "separate log_file replica"
    and "sync_folders ord clock depth source replica log_file s = (None, s')"
    and "m \<in> set (new_ops s s')"
  shows "\<exists>q. q \<noteq> [] \<and> op_path m = replica @ q \<and> due_at (fs s) source replica q m"
proof -
  have "count_list (new_ops s s') m = (if due (fs s) source replica m then 1 else 0)"
    using sync_folders_reconciled [OF assms(1-5)] unfolding reconciled_def by blast
  with assms(6) have "due (fs s) source replica m"
    by (auto simp: count_list_0_iff split: if_splits)
  then show ?thesis by (simp add: due_def)
qed

lemma reconciled_view:
  assumes "separate source replica" and "iteration_order ord"
    and "separate log_file source" and "separate log_file replica"
    and "sync_folders ord clock depth source replica log_file s = (None, s')"
  shows "converged_entry (view (fs s) (source @ q)) (view (fs s) (replica @ q)) (view (fs s') (replica @ q))"
  using sync_folders_reconciled [OF assms] unfolding reconciled_def converged_def by blast

section \<open>The depth of the recursion\<close>

lemma fold_max_init: "(k::nat) \<le> fold max ns k"
proof (induction ns arbitrary: k)
  case Nil
  then show ?case by simp
next
  case (Cons a ns)
  have "k \<le> max a k" by simp
  also have "\<dots> \<le> fold max ns (max a k)" by (rule Cons.IH)
  finally show ?case by simp
qed

lemma fold_max_member: "n \<in> set ns \<Longrightarrow> (n::nat) \<le> fold max ns k"
proof (induction ns arbitrary: k)
  case Nil
  then show ?case by simp
next
  case (Cons a ns)
  show ?case
  proof (cases "n = a")
    case True
    have "a \<le> max a k" by simp
    also have "\<dots> \<le> fold max ns (max a k)" by (rule fold_max_init)
    finally show ?thesis using True by simp
  next
    case False
    with Cons.prems have "n \<in> set ns" by simp
    then show ?thesis using Cons.IH by simp
  qed
qed

lemma height_child: "map_of es x = Some c \<Longrightarrow> height c < height (Dir es)"
proof -
  assume "map_of es x = Some c"
  then have "(x, c) \<in> set es" by (rule map_of_SomeD)
  then have "height c \<in> set (map (\<lambda>e. height (snd e)) es)" by force
  then have "height c \<le> fold max (map (\<lambda>e. height (snd e)) es) 0" by (rule fold_max_member)
  then show ?thesis by simp
qed

lemma height_at_child:
  "isdir t (p @ [x]) \<Longrightarrow> height_at t (p @ [x]) < height_at t p"
proof -
  assume "isdir t (p @ [x])"
  then obtain es es' where "lookup t p = Some (Dir es)" "map_of es x = Some (Dir es')"
    by (auto simp: isdir_def lookup_append split: option.splits node.splits)
  then show ?thesis
    using height_child [of es x "Dir es'"] by (simp add: height_at_def lookup_append)
qed

text \<open>A directory \<open>r\<close> levels beneath \<open>p\<close> makes \<open>p\<close> higher than \<open>r\<close> is long.\<close>

lemma height_at_Directory:
  "view t (p @ r) = Directory \<Longrightarrow> length r < height_at t p"
proof (induction r arbitrary: p)
  case Nil
  then show ?case
    by (auto simp: view_def height_at_def split: option.splits node.splits)
next
  case (Cons x r)
  from Cons.prems have v: "view t ((p @ [x]) @ r) = Directory" by simp
  then have "length r < height_at t (p @ [x])" by (rule Cons.IH)
  moreover have "view t (p @ [x]) = Directory"
  proof (cases "r = []")
    case True
    with v show ?thesis by simp
  next
    case False
    from v have "view t ((p @ [x]) @ r) \<noteq> Absent" by simp
    then show ?thesis using False by (rule view_parent_Directory)
  qed
  then have "height_at t (p @ [x]) < height_at t p"
    by (intro height_at_child) (simp add: isdir_view)
  ultimately show ?case by simp
qed

lemma no_entry_not_recursion [simp]: "no_entry t p \<noteq> RecursionError"
  by (simp add: no_entry_def)

lemma makedirs_not_recursion: "makedirs full p t \<noteq> Inl RecursionError"
  by (induction p arbitrary: t) (auto split: node.splits option.splits sum.splits)

lemma listdir_not_recursion: "listdir t p \<noteq> Inl RecursionError"
  by (auto simp: listdir_def split: option.splits node.splits)

lemma copytree_not_recursion: "copytree src dst t \<noteq> Inl RecursionError"
  using makedirs_not_recursion [of dst dst t]
  by (auto simp: copytree_def split: option.splits node.splits sum.splits)

lemma copy2_not_recursion: "copy2 src dst t \<noteq> Inl RecursionError"
  by (auto simp: copy2_def open_rb_def Let_def split: option.splits node.splits sum.splits)

lemma calculate_md5_not_recursion: "calculate_md5 t p \<noteq> Inl RecursionError"
  by (auto simp: calculate_md5_def open_rb_def split: option.splits node.splits sum.splits)

lemma rmtree_not_recursion: "rmtree p t \<noteq> Inl RecursionError"
  by (auto simp: rmtree_def split: option.splits node.splits)

lemma remove_not_recursion: "remove p t \<noteq> Inl RecursionError"
  by (auto simp: remove_def split: option.splits node.splits)

lemma log_operation_not_recursion:
  "log_operation clock m log_file s \<noteq> (Some RecursionError, s')"
  using log_operation_failed [of clock m log_file s RecursionError s'] by auto

lemma do_copy_not_recursion: "do_copy clock src dst log_file s \<noteq> (Some RecursionError, s')"
  using copy2_not_recursion [of src dst "fs s"]
  by (auto simp: do_copy_def log_operation_not_recursion split: sum.splits)

lemma sync_item_recursion:
  assumes "sync_item clock self source replica log_file x s = (Some RecursionError, s')"
  shows "isdir (fs s) (source @ [x]) \<and>
         self (source @ [x]) (replica @ [x]) log_file s = (Some RecursionError, s')"
proof (cases "isdir (fs s) (source @ [x])")
  case True
  show ?thesis
  proof (cases "path_exists (fs s) (replica @ [x])")
    case ex: True
    with True assms show ?thesis by (simp add: sync_item_dir_old)
  next
    case False
    with True assms copytree_not_recursion [of "source @ [x]" "replica @ [x]" "fs s"]
    show ?thesis
      by (auto simp: sync_item_dir_new log_operation_not_recursion split: sum.splits)
  qed
next
  case False
  show ?thesis
  proof (cases "path_exists (fs s) (replica @ [x])")
    case ex: True
    from assms calculate_md5_not_recursion [of "fs s" "source @ [x]"]
      calculate_md5_not_recursion [of "fs s" "replica @ [x]"]
      do_copy_not_recursion [of clock "source @ [x]" "replica @ [x]" log_file s s']
    show ?thesis
      unfolding sync_item_file_old [OF False ex] by (auto split: sum.splits if_splits)
  next
    case ne: False
    with False assms do_copy_not_recursion [of clock "source @ [x]" "replica @ [x]" log_file s s']
    show ?thesis by (simp add: sync_item_file_new)
  qed
qed

lemma prune_item_not_recursion:
  "prune_item clock source_files replica log_file x s \<noteq> (Some RecursionError, s')"
  using rmtree_not_recursion [of "replica @ [x]" "fs s"] remove_not_recursion [of "replica @ [x]" "fs s"]
  by (auto simp: prune_item_def Let_def log_operation_not_recursion split: sum.splits)

lemma sync_folders_Suc_Some:
  assumes "sync_folders ord clock (Suc depth) source replica log_file s = (Some e, s')"
  shows "(listdir (fs s) source = Inl e \<and> s' = s) \<or>
         (\<exists>a. listdir (fs s) source = Inr a \<and> listdir (fs s) replica = Inl e \<and> s' = s) \<or>
         (\<exists>a b. listdir (fs s) source = Inr a \<and> listdir (fs s) replica = Inr b \<and>
            for_each (sync_item clock (sync_folders ord clock depth) source replica log_file) (ord a) s = (Some e, s')) \<or>
         (\<exists>a b s1. listdir (fs s) source = Inr a \<and> listdir (fs s) replica = Inr b \<and>
            for_each (sync_item clock (sync_folders ord clock depth) source replica log_file) (ord a) s = (None, s1) \<and>
            for_each (prune_item clock (ord a) replica log_file) (ord b) s1 = (Some e, s'))"
  using assms by (auto simp: Let_def split: sum.splits prod.splits option.splits)

text \<open>
  Wherever the log file lies, a pass leaves outside the replica the directories that were
  there: a write to the log file makes a regular file, never a directory.
\<close>

lemma below_Directory:
  assumes "below log_file replica s s'" and "separate source replica"
  shows "view (fs s') (source @ r) = Directory \<longleftrightarrow> view (fs s) (source @ r) = Directory"
proof -
  have "\<not> strict_prefix replica (source @ r)"
    using separate_under [OF assms(2), of r] by (auto simp: strict_prefix_def)
  with assms(1) have "same_or_logged log_file (fs s) (fs s') (source @ r)"
    by (simp add: below_def)
  then show ?thesis by (rule same_or_logged_Directory)
qed

lemma recursion_depth_views:
  "separate source replica \<Longrightarrow> 0 < depth \<Longrightarrow>
   (\<And>r. view (fs s) (source @ r) = Directory \<Longrightarrow> length r < depth) \<Longrightarrow>
   sync_folders ord clock depth source replica log_file s \<noteq> (Some RecursionError, s')"
proof (induction depth arbitrary: source replica s s')
  case 0
  then show ?case by simp
next
  case (Suc depth)
  show ?case
  proof
    assume run: "sync_folders ord clock (Suc depth) source replica log_file s = (Some RecursionError, s')"
    from sync_folders_Suc_Some [OF run] listdir_not_recursion
    consider
      (loop1) a b where "listdir (fs s) source = Inr a" "listdir (fs s) replica = Inr b"
        "for_each (sync_item clock (sync_folders ord clock depth) source replica log_file) (ord a) s = (Some RecursionError, s')"
    | (loop2) a b s1 where
        "for_each (prune_item clock (ord a) replica log_file) (ord b) s1 = (Some RecursionError, s')"
      by metis
    then show False
    proof cases
      case loop1
      from for_each_failure [OF loop1(3)] obtain ys y zs sa where
        pre: "for_each (sync_item clock (sync_folders ord clock depth) source replica log_file) ys s = (None, sa)" and
        item: "sync_item clock (sync_folders ord clock depth) source replica log_file y sa = (Some RecursionError, s')"
        by blast
      have D: "isdir (fs s) replica" using loop1(2) by (rule listdir_Inr_isdir)
      have bsa: "below log_file replica s sa"
        by (rule for_each_below [of replica "sync_item clock (sync_folders ord clock depth) source replica log_file", OF _ D pre])
          (rule sync_item_within, rule sync_folders_below)
      from sync_item_recursion [OF item] have
        d: "isdir (fs sa) (source @ [y])" and
        rec: "sync_folders ord clock depth (source @ [y]) (replica @ [y]) log_file sa = (Some RecursionError, s')"
        by blast+
      have h: "length r < depth" if "view (fs sa) ((source @ [y]) @ r) = Directory" for r
      proof -
        from that have "view (fs sa) (source @ y # r) = Directory" by simp
        then have "view (fs s) (source @ y # r) = Directory"
          using below_Directory [OF bsa Suc.prems(1), of "y # r"] by simp
        from Suc.prems(3) [OF this] show ?thesis by simp
      qed
      have "view (fs sa) ((source @ [y]) @ []) = Directory" using d by (simp add: isdir_view)
      from h [OF this] have "0 < depth" by simp
      from Suc.IH [OF separate_child [OF Suc.prems(1)] this h] rec show False by blast
    next
      case loop2
      from for_each_failure [OF loop2] prune_item_not_recursion show False by blast
    qed
  qed
qed

lemma recursion_depth:
  assumes "separate source replica" and "0 < depth" and "height_at (fs s) source \<le> depth"
  shows "sync_folders ord clock depth source replica log_file s \<noteq> (Some RecursionError, s')"
proof (rule recursion_depth_views [OF assms(1,2)])
  fix r assume "view (fs s) (source @ r) = Directory"
  then have "length r < height_at (fs s) source" by (rule height_at_Directory)
  with assms(3) show "length r < depth" by simp
qed

lemma height_at_root: "height_at t [] = height t"
  by (simp add: height_at_def)

section \<open>Calls that cannot fail between separate trees\<close>

lemma copytree_succeeds:
  assumes "isdir t src" "isdir t rep" "\<not> path_exists t (rep @ [x])" "\<not> strict_prefix src rep"
  shows "\<exists>t'. copytree src (rep @ [x]) t = Inr t'"
proof -
  from assms(1) obtain es where es: "lookup t src = Some (Dir es)"
    by (auto simp: isdir_def split: option.splits node.splits)
  have mk: "makedirs full (rep @ [x]) t = Inr (bind_at (rep @ [x]) (Some (Dir [])) t)" for full
    using assms(2,3) by (intro makedirs_bind_at) (auto simp: path_exists_def)
  show ?thesis using es assms(4) by (simp add: copytree_def mk)
qed

lemma copy2_succeeds:
  assumes "lookup t src = Some (File c m)" "\<not> isdir t dst" "src \<noteq> dst" "isdir t (butlast dst)"
  shows "copy2 src dst t = Inr (bind_at dst (Some (File c m)) t)"
  using assms by (simp add: copy2_def open_rb_def Let_def)

lemma separate_child_neq: "separate p q \<Longrightarrow> p @ [x] \<noteq> q @ [x]"
  by (auto simp: separate_def)

lemma separate_child_not_inside: "separate p q \<Longrightarrow> \<not> strict_prefix (p @ [x]) q"
  by (auto simp: separate_def strict_prefix_def dest: append_prefixD)

lemma append_to_succeeds: "loggable t p \<Longrightarrow> \<exists>t'. append_to p bs now t = Inr t'"
  by (auto simp: loggable_def append_to_def view_def split: option.splits node.splits)

lemma log_operation_succeeds:
  "loggable (fs s) log_file \<Longrightarrow> \<exists>s'. log_operation clock m log_file s = (None, s')"
  using append_to_succeeds [of "fs s" log_file]
  by (auto simp: log_operation_def Let_def split: prod.splits sum.splits) (metis sum.distinct(1))

lemma loggable_views:
  "view t' p = view t p \<Longrightarrow> view t' (butlast p) = view t (butlast p) \<Longrightarrow>
   loggable t' p = loggable t p"
  by (simp add: loggable_def isdir_view split: entry.splits)

lemma not_prefix_butlast: "\<not> prefix p q \<Longrightarrow> \<not> prefix p (butlast q)"
  using prefixeq_butlast [of q] prefix_order.order_trans by blast

lemma loggable_bind_at:
  "\<not> prefix p log_file \<Longrightarrow> loggable (bind_at p v t) log_file = loggable t log_file"
  by (intro loggable_views view_bind_at_other not_prefix_butlast)

lemma below_loggable:
  assumes "below log_file replica s s'" and "\<not> prefix replica log_file"
    and "loggable (fs s) log_file"
  shows "loggable (fs s') log_file"
proof -
  have n: "\<not> strict_prefix replica log_file" "\<not> strict_prefix replica (butlast log_file)"
    using assms(2) not_prefix_butlast [OF assms(2)] by (auto simp: strict_prefix_def)
  with assms(1) have a: "same_or_logged log_file (fs s) (fs s') log_file"
    and b: "same_or_logged log_file (fs s) (fs s') (butlast log_file)"
    by (simp_all add: below_def)
  show ?thesis
  proof (cases "view (fs s') log_file = view (fs s) log_file")
    case False
    with a show ?thesis by (auto simp: same_or_logged_def loggable_def)
  next
    case True
    show ?thesis
    proof (cases "log_file = []")
      case True
      with assms(3) \<open>view (fs s') log_file = view (fs s) log_file\<close> show ?thesis
        by (simp add: loggable_def isdir_view split: entry.splits)
    next
      case False
      then have "butlast log_file \<noteq> log_file"
        by (metis append_butlast_last_id append_self_conv not_Cons_self2)
      with b have "view (fs s') (butlast log_file) = view (fs s) (butlast log_file)"
        by (rule same_or_logged_view)
      from loggable_views [OF True this] assms(3) show ?thesis by simp
    qed
  qed
qed

lemma do_copy_succeeds:
  assumes "separate source replica" "isdir (fs s) replica"
    "lookup (fs s) (source @ [x]) = Some (File c m)" "\<not> isdir (fs s) (replica @ [x])"
    and "\<not> prefix replica log_file" and "loggable (fs s) log_file"
  shows "\<exists>s'. do_copy clock (source @ [x]) (replica @ [x]) log_file s = (None, s')"
proof -
  have c: "copy2 (source @ [x]) (replica @ [x]) (fs s) =
           Inr (bind_at (replica @ [x]) (Some (File c m)) (fs s))"
    using copy2_succeeds [OF assms(3,4) separate_child_neq [OF assms(1)]] assms(2) by simp
  have "\<not> prefix (replica @ [x]) log_file" using assms(5) by (auto dest: append_prefixD)
  then have "loggable (bind_at (replica @ [x]) (Some (File c m)) (fs s)) log_file"
    using assms(6) loggable_bind_at [of "replica @ [x]" log_file] by simp
  then show ?thesis
    using log_operation_succeeds [of "s\<lparr>fs := bind_at (replica @ [x]) (Some (File c m)) (fs s)\<rparr>"
        log_file clock "FileCopied (replica @ [x])"]
    by (simp add: do_copy_def c)
qed

lemma sync_item_failure:
  assumes sep: "separate source replica" and rep: "isdir (fs s) replica"
    and out: "\<not> prefix replica log_file" and can: "loggable (fs s) log_file"
    and run: "sync_item clock self source replica log_file x s = (Some e, s')"
    and present: "view (fs s) (source @ [x]) \<noteq> Absent"
  shows "(view (fs s) (source @ [x]) = Directory \<and> view (fs s) (replica @ [x]) \<noteq> Absent \<and>
          self (source @ [x]) (replica @ [x]) log_file s = (Some e, s')) \<or>
         ((\<exists>c. view (fs s) (source @ [x]) = Regular c) \<and> view (fs s) (replica @ [x]) = Directory \<and>
          e = IsADirectoryError (replica @ [x]) \<and> s' = s)"
proof (cases "isdir (fs s) (source @ [x])")
  case True
  show ?thesis
  proof (cases "path_exists (fs s) (replica @ [x])")
    case ex: True
    with True run show ?thesis by (simp add: sync_item_dir_old isdir_view path_exists_view)
  next
    case ne: False
    from copytree_succeeds [OF True rep ne separate_child_not_inside [OF sep]]
    obtain t' where ct: "copytree (source @ [x]) (replica @ [x]) (fs s) = Inr t'" by blast
    from copytree_result [OF ct rep ne] obtain es where
      t': "t' = bind_at (replica @ [x]) (Some (Dir es)) (bind_at (replica @ [x]) (Some (Dir [])) (fs s))"
      by blast
    have "\<not> prefix (replica @ [x]) log_file" using out by (auto dest: append_prefixD)
    then have "loggable t' log_file"
      using can loggable_bind_at [of "replica @ [x]" log_file] by (simp add: t')
    then have "\<exists>u. log_operation clock (DirectoryCreated (replica @ [x])) log_file (s\<lparr>fs := t'\<rparr>) = (None, u)"
      using log_operation_succeeds [of "s\<lparr>fs := t'\<rparr>" log_file] by simp
    with True ne run ct show ?thesis by (auto simp: sync_item_dir_new)
  qed
next
  case False
  with present obtain c m where c: "lookup (fs s) (source @ [x]) = Some (File c m)"
    by (auto simp: isdir_def view_def split: option.splits node.splits)
  show ?thesis
  proof (cases "path_exists (fs s) (replica @ [x])")
    case ne: False
    from do_copy_succeeds [OF sep rep c not_exists_not_isdir [OF ne] out can, of clock] run False ne
    show ?thesis by (auto simp: sync_item_file_new)
  next
    case ex: True
    show ?thesis
    proof (cases "isdir (fs s) (replica @ [x])")
      case True
      then obtain es where "lookup (fs s) (replica @ [x]) = Some (Dir es)"
        by (auto simp: isdir_def split: option.splits node.splits)
      with run c True show ?thesis
        unfolding sync_item_file_old [OF False ex]
        by (simp add: calculate_md5_File calculate_md5_Dir view_def isdir_view)
    next
      case nd: False
      with ex obtain c' m' where c': "lookup (fs s) (replica @ [x]) = Some (File c' m')"
        by (auto simp: isdir_def path_exists_def split: option.splits node.splits)
      from do_copy_succeeds [OF sep rep c nd out can, of clock] run c c'
      show ?thesis
        unfolding sync_item_file_old [OF False ex]
        by (auto simp: calculate_md5_File split: if_splits)
    qed
  qed
qed

lemma prune_item_failure:
  assumes "prune_item clock source_files replica log_file x s = (Some e, s')"
    and out: "\<not> prefix replica log_file" and can: "loggable (fs s) log_file"
  shows "view (fs s) (replica @ [x]) = Absent \<and> s' = s"
proof -
  have nx: "\<not> prefix (replica @ [x]) log_file" using out by (auto dest: append_prefixD)
  have logs: "\<exists>u. log_operation clock m log_file (s\<lparr>fs := bind_at (replica @ [x]) None (fs s)\<rparr>) = (None, u)"
    for m
    using log_operation_succeeds [of "s\<lparr>fs := bind_at (replica @ [x]) None (fs s)\<rparr>" log_file clock m]
      can loggable_bind_at [OF nx, of None "fs s"] by simp
  show ?thesis
  proof (cases "isdir (fs s) (replica @ [x])")
    case True
    then have "rmtree (replica @ [x]) (fs s) = Inr (bind_at (replica @ [x]) None (fs s))"
      by (auto simp: rmtree_def isdir_def split: option.splits node.splits)
    with assms(1) True logs [of "DirectoryRemoved (replica @ [x])"] show ?thesis
      by (auto simp: prune_item_def Let_def split: if_splits)
  next
    case False
    show ?thesis
    proof (cases "lookup (fs s) (replica @ [x])")
      case None
      with assms(1) False show ?thesis
        by (auto simp: prune_item_def Let_def view_def remove_def split: if_splits sum.splits)
    next
      case (Some n)
      with False obtain c m where "lookup (fs s) (replica @ [x]) = Some (File c m)"
        by (cases n) (auto simp: isdir_def)
      then have "remove (replica @ [x]) (fs s) = Inr (bind_at (replica @ [x]) None (fs s))"
        by (simp add: remove_def)
      with assms(1) False logs [of "FileRemoved (replica @ [x])"] show ?thesis
        by (auto simp: prune_item_def Let_def split: if_splits)
    qed
  qed
qed

section \<open>The errors a pass can end with\<close>

lemma listdir_Directory: "view t p = Directory \<Longrightarrow> \<exists>ns. listdir t p = Inr ns"
  by (auto simp: view_def listdir_def split: option.splits node.splits)

lemma listdir_Regular: "view t p = Regular c \<Longrightarrow> listdir t p = Inl (NotADirectoryError p)"
  by (auto simp: view_def listdir_def split: option.splits node.splits)

lemma sync_folders_replica_file:
  assumes "view (fs s) source = Directory" "view (fs s) replica = Regular c"
  shows "sync_folders ord clock depth source replica log_file s =
           (if depth = 0 then (Some RecursionError, s) else (Some (NotADirectoryError replica), s))"
proof (cases depth)
  case 0
  then show ?thesis by simp
next
  case (Suc d)
  from listdir_Directory [OF assms(1)] obtain ns where "listdir (fs s) source = Inr ns" by blast
  with Suc listdir_Regular [OF assms(2)] show ?thesis by simp
qed

lemma loop_before_item:
  assumes body: "\<And>y s r s'. isdir (fs s) replica \<Longrightarrow> body y s = (r, s') \<Longrightarrow> within log_file (replica @ [y]) s s'"
    and "separate log_file replica"
    and "isdir (fs s) replica" "x \<notin> set ys" "for_each body ys s = (r, sa)"
  shows "below log_file replica s sa \<and> untouched (replica @ [x]) s sa \<and> isdir (fs sa) replica"
proof -
  have b: "below log_file replica s sa"
    by (rule for_each_below [of replica body, OF _ assms(3,5)]) (rule body)
  have u: "untouched (replica @ [x]) s sa"
    by (rule for_each_untouched [of replica body, OF _ assms(2,3,4,5)]) (rule body)
  from b u below_isdir [OF b] assms(3) show ?thesis by simp
qed

lemma kind_mismatch_child:
  assumes "kind_mismatch t' (source @ [y]) (replica @ [y]) q e"
    and "\<And>r. view t' (source @ y # r) = view t (source @ y # r)"
    and "\<And>r. view t' (replica @ y # r) = view t (replica @ y # r)"
  shows "kind_mismatch t source replica (y # q) e"
  using assms(1) unfolding kind_mismatch_def by (simp add: assms(2,3))

lemma failure_classified:
  "separate source replica \<Longrightarrow> iteration_order ord \<Longrightarrow>
   view (fs s) source = Directory \<Longrightarrow> view (fs s) replica = Directory \<Longrightarrow>
   sync_folders ord clock depth source replica log_file s = (Some e, s') \<Longrightarrow>
   separate log_file source \<Longrightarrow> separate log_file replica \<Longrightarrow> loggable (fs s) log_file \<Longrightarrow>
   e = RecursionError \<or> (\<exists>q. kind_mismatch (fs s) source replica q e)"
proof (induction depth arbitrary: source replica s s')
  case 0
  then show ?case by simp
next
  case (Suc depth)
  note sep = Suc.prems(1) and ord = Suc.prems(2)
    and outs = Suc.prems(6) and out = Suc.prems(7) and can = Suc.prems(8)
  have np: "\<not> prefix replica log_file" using out by (simp add: separate_def)
  let ?body = "sync_item clock (sync_folders ord clock depth) source replica log_file"
  have D: "isdir (fs s) replica" using Suc.prems(4) by (simp add: isdir_view)
  have c1: "within log_file (replica @ [y]) u u'"
    if "isdir (fs u) replica" "?body y u = (r, u')" for y u r u'
    using that by (intro sync_item_within [where self = "sync_folders ord clock depth" and source = source])
      (rule sync_folders_below)
  from listdir_Directory [OF Suc.prems(3)] obtain a where ls: "listdir (fs s) source = Inr a" by blast
  from listdir_Directory [OF Suc.prems(4)] obtain b where lr: "listdir (fs s) replica = Inr b" by blast
  have dist: "distinct (ord a)" "distinct (ord b)" "set (ord a) = set a" "set (ord b) = set b"
    using ord by (simp_all add: iteration_order_def)
  from sync_folders_Suc_Some [OF Suc.prems(5)] ls lr
  consider
    (loop1) "for_each ?body (ord a) s = (Some e, s')"
  | (loop2) s1 where "for_each ?body (ord a) s = (None, s1)"
      "for_each (prune_item clock (ord a) replica log_file) (ord b) s1 = (Some e, s')"
    by auto
  then show ?case
  proof cases
    case loop1
    from for_each_failure [OF loop1] obtain ys y zs sa where
      split: "ord a = ys @ y # zs" and pre: "for_each ?body ys s = (None, sa)" and
      item: "?body y sa = (Some e, s')" by blast
    have ny: "y \<notin> set ys" using dist(1) split by auto
    have "below log_file replica s sa \<and> untouched (replica @ [y]) s sa \<and> isdir (fs sa) replica"
      by (rule loop_before_item [of replica ?body, OF _ out D ny pre]) (rule c1)
    then have bsa: "below log_file replica s sa" and usa: "untouched (replica @ [y]) s sa"
      and Dsa: "isdir (fs sa) replica" by blast+
    have cana: "loggable (fs sa) log_file" using bsa np can by (rule below_loggable)
    have vs: "view (fs sa) (source @ y # r) = view (fs s) (source @ y # r)" for r
      using below_source_view [OF bsa sep outs, of "y # r"] .
    have vr: "view (fs sa) (replica @ y # r) = view (fs s) (replica @ y # r)" for r
      using untouched_view [OF usa, of r] by simp
    have "y \<in> set a" using split dist(3) by (metis in_set_conv_decomp)
    then have "view (fs s) (source @ [y]) \<noteq> Absent" using listdir_names [OF ls] by simp
    then have present: "view (fs sa) (source @ [y]) \<noteq> Absent" using vs [of "[]"] by simp
    from sync_item_failure [OF sep Dsa np cana item present]
    consider
      (rec) "view (fs sa) (source @ [y]) = Directory" "view (fs sa) (replica @ [y]) \<noteq> Absent"
        "sync_folders ord clock depth (source @ [y]) (replica @ [y]) log_file sa = (Some e, s')"
    | (isdir) c where "view (fs sa) (source @ [y]) = Regular c" "view (fs sa) (replica @ [y]) = Directory"
        "e = IsADirectoryError (replica @ [y])"
      by blast
    then show ?thesis
    proof cases
      case rec
      show ?thesis
      proof (cases "view (fs sa) (replica @ [y])")
        case Absent
        with rec(2) show ?thesis by simp
      next
        case (Regular c)
        from rec(3) have "e = RecursionError \<or> e = NotADirectoryError (replica @ [y])"
          unfolding sync_folders_replica_file [OF rec(1) Regular] by (auto split: if_splits)
        moreover have "kind_mismatch (fs s) source replica [y] (NotADirectoryError (replica @ [y]))"
          using rec(1) Regular vs [of "[]"] vr [of "[]"] by (simp add: kind_mismatch_def)
        ultimately show ?thesis by blast
      next
        case Directory
        from Suc.IH [OF separate_child [OF sep] ord rec(1) Directory rec(3)
            separate_append [OF outs] separate_append [OF out] cana]
        show ?thesis
        proof
          assume "e = RecursionError"
          then show ?thesis ..
        next
          assume "\<exists>q. kind_mismatch (fs sa) (source @ [y]) (replica @ [y]) q e"
          then obtain q where "kind_mismatch (fs sa) (source @ [y]) (replica @ [y]) q e" ..
          then have "kind_mismatch (fs s) source replica (y # q) e"
            using vs vr by (rule kind_mismatch_child)
          then show ?thesis by blast
        qed
      qed
    next
      case isdir
      then have "kind_mismatch (fs s) source replica [y] e"
        using vs [of "[]"] vr [of "[]"] by (simp add: kind_mismatch_def)
      then show ?thesis by blast
    qed
  next
    case loop2
    have B1: "below log_file replica s s1"
      by (rule for_each_below [of replica ?body, OF _ D loop2(1)]) (rule c1)
    have D1: "isdir (fs s1) replica" using below_isdir [OF B1] D by simp
    from for_each_failure [OF loop2(2)] obtain ys y zs sa where
      split: "ord b = ys @ y # zs" and
      pre: "for_each (prune_item clock (ord a) replica log_file) ys s1 = (None, sa)" and
      item: "prune_item clock (ord a) replica log_file y sa = (Some e, s')" by blast
    have ny: "y \<notin> set ys" using dist(2) split by auto
    have nya: "y \<notin> set (ord a)" using item by (auto simp: prune_item_kept)
    have u1: "untouched (replica @ [y]) s s1"
      by (rule for_each_untouched [of replica ?body, OF _ out D nya loop2(1)]) (rule c1)
    have u2: "untouched (replica @ [y]) s1 sa"
      by (rule for_each_untouched [of replica "prune_item clock (ord a) replica log_file", OF _ out D1 ny pre])
        (rule prune_item_within)
    have B2: "below log_file replica s1 sa"
      by (rule for_each_below [of replica "prune_item clock (ord a) replica log_file", OF _ D1 pre])
        (rule prune_item_within)
    have cana: "loggable (fs sa) log_file"
      using below_trans [OF B1 B2] np can by (rule below_loggable)
    have "view (fs sa) (replica @ [y]) = view (fs s) (replica @ [y])"
      using untouched_view [OF u1, of "[]"] untouched_view [OF u2, of "[]"] by simp
    moreover have "y \<in> set b" using split dist(4) by (metis in_set_conv_decomp)
    then have "view (fs s) (replica @ [y]) \<noteq> Absent" using listdir_names [OF lr] by simp
    ultimately show ?thesis using prune_item_failure [OF item np cana] by simp
  qed
qed

section \<open>A name of the wrong kind\<close>

lemma view_prefix_present: "view t (p @ r) \<noteq> Absent \<Longrightarrow> view t p \<noteq> Absent"
  using view_append_Absent [of t p r] by auto

lemma lookup_of_lookup: "lookup t p = lookup t' p' \<Longrightarrow> lookup t (p @ r) = lookup t' (p' @ r)"
  by (simp add: lookup_append)

lemma mismatch_fails:
  "separate source replica \<Longrightarrow> iteration_order ord \<Longrightarrow> kinds_differ (fs s) source replica q \<Longrightarrow>
   sync_folders ord clock depth source replica log_file s = (r, s') \<Longrightarrow>
   separate log_file source \<Longrightarrow> separate log_file replica \<Longrightarrow>
   r \<noteq> None \<and> lookup (fs s') (replica @ q) = lookup (fs s) (replica @ q)"
proof (induction depth arbitrary: source replica s r s' q)
  case 0
  then show ?case by auto
next
  case (Suc depth)
  note sep = Suc.prems(1) and ord = Suc.prems(2) and diff = Suc.prems(3)
    and outs = Suc.prems(5) and out = Suc.prems(6)
  let ?body = "sync_item clock (sync_folders ord clock depth) source replica log_file"
  from diff obtain x q' where q: "q = x # q'" by (cases q) (auto simp: kinds_differ_def)
  have ne: "view (fs s) (source @ q) \<noteq> Absent" "view (fs s) (replica @ q) \<noteq> Absent"
    using diff by (auto simp: kinds_differ_def)
  have S: "view (fs s) source = Directory" and R: "view (fs s) replica = Directory"
    using ne q view_parent_Directory [of "fs s" source q] view_parent_Directory [of "fs s" replica q]
    by simp_all
  have D: "isdir (fs s) replica" using R by (simp add: isdir_view)
  have c1: "within log_file (replica @ [y]) u u'"
    if "isdir (fs u) replica" "?body y u = (r, u')" for y u r u'
    using that by (intro sync_item_within [where self = "sync_folders ord clock depth" and source = source])
      (rule sync_folders_below)
  from listdir_Directory [OF S] obtain a where ls: "listdir (fs s) source = Inr a" by blast
  from listdir_Directory [OF R] obtain b where lr: "listdir (fs s) replica = Inr b" by blast
  have dist: "distinct (ord a)" "set (ord a) = set a"
    using ord by (simp_all add: iteration_order_def)
  have "view (fs s) (source @ [x]) \<noteq> Absent"
    using ne(1) q view_prefix_present [of "fs s" "source @ [x]" q'] by simp
  then have "x \<in> set (ord a)" using listdir_names [OF ls] dist(2) by simp
  then obtain ys zs where split: "ord a = ys @ x # zs" by (meson split_list)
  have nx: "x \<notin> set ys" using dist(1) split by auto
  obtain ry sy where pre: "for_each ?body ys s = (ry, sy)" by (cases "for_each ?body ys s")
  have "below log_file replica s sy \<and> untouched (replica @ [x]) s sy \<and> isdir (fs sy) replica"
    by (rule loop_before_item [of replica ?body, OF _ out D nx pre]) (rule c1)
  then have bsy: "below log_file replica s sy" and usy: "untouched (replica @ [x]) s sy"
    and Dsy: "isdir (fs sy) replica" by blast+
  have keep: "lookup (fs sy) (replica @ q) = lookup (fs s) (replica @ q)"
    using usy lookup_of_lookup [of "fs sy" "replica @ [x]" "fs s" "replica @ [x]" q'] q
    by (simp add: untouched_def)
  have run: "(case for_each ?body (ord a) s of
                (Some e, s') \<Rightarrow> (Some e, s')
              | (None, s1) \<Rightarrow> for_each (prune_item clock (ord a) replica log_file) (ord b) s1) = (r, s')"
    using Suc.prems(4) ls lr by (simp add: Let_def)
  show ?case
  proof (cases ry)
    case (Some e)
    then have "for_each ?body (ord a) s = (Some e, sy)"
      using pre by (simp add: split for_each_append)
    with run keep show ?thesis by auto
  next
    case None
    obtain rx sx where item: "?body x sy = (rx, sx)" by (cases "?body x sy")
    have vs: "view (fs sy) (source @ x # p) = view (fs s) (source @ x # p)" for p
      using below_source_view [OF bsy sep outs, of "x # p"] .
    have vr: "view (fs sy) (replica @ x # p) = view (fs s) (replica @ x # p)" for p
      using untouched_view [OF usy, of p] by simp
    have claim: "rx \<noteq> None \<and> lookup (fs sx) (replica @ q) = lookup (fs sy) (replica @ q)"
    proof (cases "q' = []")
      case True
      from diff q True consider
        (a) c where "view (fs s) (source @ [x]) = Directory" "view (fs s) (replica @ [x]) = Regular c"
      | (b) c where "view (fs s) (source @ [x]) = Regular c" "view (fs s) (replica @ [x]) = Directory"
        by (auto simp: kinds_differ_def)
      then show ?thesis
      proof cases
        case a
        then have va: "view (fs sy) (source @ [x]) = Directory" "view (fs sy) (replica @ [x]) = Regular c"
          using vs [of "[]"] vr [of "[]"] by simp_all
        then have "?body x sy = sync_folders ord clock depth (source @ [x]) (replica @ [x]) log_file sy"
          by (intro sync_item_dir_old) (simp_all add: isdir_view path_exists_view)
        with item show ?thesis
          unfolding sync_folders_replica_file [OF va] by (auto split: if_splits)
      next
        case b
        then have vb: "view (fs sy) (source @ [x]) = Regular c" "view (fs sy) (replica @ [x]) = Directory"
          using vs [of "[]"] vr [of "[]"] by simp_all
        from vb obtain m es where l: "lookup (fs sy) (source @ [x]) = Some (File c m)"
          "lookup (fs sy) (replica @ [x]) = Some (Dir es)"
          by (auto simp: view_Regular_iff view_Directory_iff)
        have "?body x sy = (Some (IsADirectoryError (replica @ [x])), sy)"
          using vb by (subst sync_item_file_old)
            (simp_all add: isdir_view path_exists_view calculate_md5_File [OF l(1)] calculate_md5_Dir [OF l(2)])
        with item show ?thesis by auto
      qed
    next
      case False
      have d': "kinds_differ (fs sy) (source @ [x]) (replica @ [x]) q'"
        using diff q False by (simp add: kinds_differ_def vs vr)
      have "view (fs sy) (source @ [x]) = Directory" "view (fs sy) (replica @ [x]) = Directory"
        using ne q False vs [of q'] vr [of q']
          view_parent_Directory [of "fs sy" "source @ [x]" q']
          view_parent_Directory [of "fs sy" "replica @ [x]" q'] by simp_all
      then have "?body x sy = sync_folders ord clock depth (source @ [x]) (replica @ [x]) log_file sy"
        by (intro sync_item_dir_old) (simp_all add: isdir_view path_exists_view)
      with item have "sync_folders ord clock depth (source @ [x]) (replica @ [x]) log_file sy = (rx, sx)" by simp
      from Suc.IH [OF separate_child [OF sep] ord d' this separate_append [OF outs]
          separate_append [OF out]] q
      show ?thesis by simp
    qed
    then obtain e where rx: "rx = Some e" by auto
    have "for_each ?body (ord a) s = (Some e, sx)"
      using pre None item rx by (simp add: split for_each_append)
    with run claim keep show ?thesis by auto
  qed
qed


section \<open>A replica file with the digest of the source file\<close>

lemma untouched_lookup:
  "untouched p s s' \<Longrightarrow> lookup (fs s') (p @ r) = lookup (fs s) (p @ r)"
  unfolding untouched_def by (elim conjE) (rule lookup_of_lookup)

lemma equal_digest_kept:
  "separate source replica \<Longrightarrow> iteration_order ord \<Longrightarrow>
   view (fs s) (source @ q) = Regular c \<Longrightarrow> view (fs s) (replica @ q) = Regular c' \<Longrightarrow>
   md5_hex c' = md5_hex c \<Longrightarrow>
   sync_folders ord clock depth source replica log_file s = (r, s') \<Longrightarrow>
   separate log_file source \<Longrightarrow> separate log_file replica \<Longrightarrow>
   lookup (fs s') (replica @ q) = lookup (fs s) (replica @ q)"
proof (induction depth arbitrary: source replica s r s' q)
  case 0
  then show ?case by auto
next
  case (Suc depth)
  note sep = Suc.prems(1) and ord = Suc.prems(2) and vsrc = Suc.prems(3) and vrep = Suc.prems(4)
    and eq = Suc.prems(5) and outs = Suc.prems(7) and out = Suc.prems(8)
  let ?body = "sync_item clock (sync_folders ord clock depth) source replica log_file"
  let ?prune = "prune_item clock"
  show ?case
  proof (cases q)
    case Nil
    with vsrc have "listdir (fs s) source = Inl (NotADirectoryError source)"
      by (rule_tac listdir_Regular) simp
    with Suc.prems(6) show ?thesis by simp
  next
    case (Cons x q')
    note q = Cons
    have S: "view (fs s) source = Directory" and R: "view (fs s) replica = Directory"
      using vsrc vrep q view_parent_Directory [of "fs s" source q]
        view_parent_Directory [of "fs s" replica q]
      by simp_all
    have D: "isdir (fs s) replica" using R by (simp add: isdir_view)
    have c1: "within log_file (replica @ [y]) u u'"
      if "isdir (fs u) replica" "?body y u = (r, u')" for y u r u'
      using that by (intro sync_item_within [where self = "sync_folders ord clock depth" and source = source])
        (rule sync_folders_below)
    from listdir_Directory [OF S] obtain a where ls: "listdir (fs s) source = Inr a" by blast
    from listdir_Directory [OF R] obtain b where lr: "listdir (fs s) replica = Inr b" by blast
    have dist: "distinct (ord a)" "set (ord a) = set a"
      using ord by (simp_all add: iteration_order_def)
    have "view (fs s) (source @ [x]) \<noteq> Absent"
      using vsrc q view_prefix_present [of "fs s" "source @ [x]" q'] by simp
    then have xa: "x \<in> set (ord a)" using listdir_names [OF ls] dist(2) by simp
    then obtain ys zs where split: "ord a = ys @ x # zs" by (meson split_list)
    have nx: "x \<notin> set ys" "x \<notin> set zs" using dist(1) split by auto
    obtain ry sy where pre: "for_each ?body ys s = (ry, sy)" by (cases "for_each ?body ys s")
    have "below log_file replica s sy \<and> untouched (replica @ [x]) s sy \<and> isdir (fs sy) replica"
      by (rule loop_before_item [of replica ?body, OF _ out D nx(1) pre]) (rule c1)
    then have bsy: "below log_file replica s sy" and usy: "untouched (replica @ [x]) s sy"
      and Dsy: "isdir (fs sy) replica" by blast+
    have k1: "lookup (fs sy) (replica @ q) = lookup (fs s) (replica @ q)"
      using untouched_lookup [OF usy, of q'] q by simp
    have run: "(case for_each ?body (ord a) s of
                  (Some e, s') \<Rightarrow> (Some e, s')
                | (None, s1) \<Rightarrow> for_each (?prune (ord a) replica log_file) (ord b) s1) = (r, s')"
      using Suc.prems(6) ls lr by (simp add: Let_def)
    show ?thesis
    proof (cases ry)
      case (Some e)
      then have "for_each ?body (ord a) s = (Some e, sy)"
        using pre by (simp add: split for_each_append)
      with run k1 show ?thesis by auto
    next
      case None
      obtain rx sx where item: "?body x sy = (rx, sx)" by (cases "?body x sy")
      have vs: "view (fs sy) (source @ x # p) = view (fs s) (source @ x # p)" for p
        using below_source_view [OF bsy sep outs, of "x # p"] .
      have vr: "view (fs sy) (replica @ x # p) = view (fs s) (replica @ x # p)" for p
        using untouched_view [OF usy, of p] by simp
      have k2: "lookup (fs sx) (replica @ q) = lookup (fs sy) (replica @ q)"
      proof (cases "q' = []")
        case True
        have v: "view (fs sy) (source @ [x]) = Regular c" "view (fs sy) (replica @ [x]) = Regular c'"
          using vsrc vrep q True vs [of "[]"] vr [of "[]"] by simp_all
        then obtain m m' where l: "lookup (fs sy) (source @ [x]) = Some (File c m)"
          "lookup (fs sy) (replica @ [x]) = Some (File c' m')"
          by (auto simp: view_Regular_iff)
        have "?body x sy = (None, sy)"
          using v eq by (subst sync_item_file_old)
            (simp_all add: isdir_view path_exists_view calculate_md5_File [OF l(1)]
              calculate_md5_File [OF l(2)])
        with item show ?thesis by simp
      next
        case False
        have v: "view (fs sy) ((source @ [x]) @ q') = Regular c"
          "view (fs sy) ((replica @ [x]) @ q') = Regular c'"
          using vsrc vrep q vs [of q'] vr [of q'] by simp_all
        have "view (fs sy) (source @ [x]) = Directory" "view (fs sy) (replica @ [x]) = Directory"
          using v False view_parent_Directory [of "fs sy" "source @ [x]" q']
            view_parent_Directory [of "fs sy" "replica @ [x]" q'] by simp_all
        then have "?body x sy = sync_folders ord clock depth (source @ [x]) (replica @ [x]) log_file sy"
          by (intro sync_item_dir_old) (simp_all add: isdir_view path_exists_view)
        with item have "sync_folders ord clock depth (source @ [x]) (replica @ [x]) log_file sy = (rx, sx)"
          by simp
        from Suc.IH [OF separate_child [OF sep] ord v eq this separate_append [OF outs]
            separate_append [OF out]] q
        show ?thesis by simp
      qed
      have Dsx: "isdir (fs sx) replica"
        using below_isdir [OF within_child_imp_below [OF c1 [OF Dsy item]]] Dsy by simp
      show ?thesis
      proof (cases rx)
        case (Some e)
        have "for_each ?body (ord a) s = (Some e, sx)"
          using pre None item Some by (simp add: split for_each_append)
        with run k1 k2 show ?thesis by auto
      next
        case rxn: None
        obtain rz sz where rest: "for_each ?body zs sx = (rz, sz)" by (cases "for_each ?body zs sx")
        have "below log_file replica sx sz \<and> untouched (replica @ [x]) sx sz \<and> isdir (fs sz) replica"
          by (rule loop_before_item [of replica ?body, OF _ out Dsx nx(2) rest]) (rule c1)
        then have usz: "untouched (replica @ [x]) sx sz" by blast
        have k3: "lookup (fs sz) (replica @ q) = lookup (fs sx) (replica @ q)"
          using untouched_lookup [OF usz, of q'] q by simp
        have l1: "for_each ?body (ord a) s = (rz, sz)"
          using pre None item rxn rest by (simp add: split for_each_append)
        show ?thesis
        proof (cases rz)
          case (Some e)
          with l1 run k1 k2 k3 show ?thesis by auto
        next
          case rzn: None
          with l1 run have l2: "for_each (?prune (ord a) replica log_file) (ord b) sz = (r, s')"
            by simp
          have "untouched (replica @ [x]) sz s'" using out xa l2 by (rule prune_kept_untouched)
          from untouched_lookup [OF this, of q'] q k1 k2 k3 show ?thesis by simp
        qed
      qed
    qed
  qed
qed

section \<open>A pass over a replica in step\<close>

lemma converged_entry_after:
  "converged_entry src before after \<Longrightarrow> converged_entry src after after"
  by (cases src; cases before) (auto simp: converged_entry_def split: if_splits)

lemma converged_in_sync:
  assumes "converged source replica t t'" and "\<And>q. view t' (source @ q) = view t (source @ q)"
  shows "in_sync source replica t'"
  unfolding in_sync_def
proof
  fix q
  have "converged_entry (view t (source @ q)) (view t (replica @ q)) (view t' (replica @ q))"
    using assms(1) by (simp add: converged_def)
  then show "converged_entry (view t' (source @ q)) (view t' (replica @ q)) (view t' (replica @ q))"
    unfolding assms(2) by (rule converged_entry_after)
qed

lemma in_sync_child: "in_sync source replica t \<Longrightarrow> in_sync (source @ [x]) (replica @ [x]) t"
  unfolding in_sync_def
proof
  fix q assume a: "\<forall>q. converged_entry (view t (source @ q)) (view t (replica @ q)) (view t (replica @ q))"
  from a have "converged_entry (view t (source @ x # q)) (view t (replica @ x # q)) (view t (replica @ x # q))"
    by blast
  then show "converged_entry (view t ((source @ [x]) @ q)) (view t ((replica @ [x]) @ q))
     (view t ((replica @ [x]) @ q))" by simp
qed

lemma in_sync_Directory:
  "in_sync source replica t \<Longrightarrow> view t (source @ q) = Directory \<Longrightarrow> view t (replica @ q) = Directory"
proof -
  assume "in_sync source replica t" and v: "view t (source @ q) = Directory"
  then have "converged_entry (view t (source @ q)) (view t (replica @ q)) (view t (replica @ q))"
    unfolding in_sync_def by blast
  then show ?thesis by (simp add: v)
qed

lemma in_sync_Absent:
  "in_sync source replica t \<Longrightarrow> view t (source @ q) = Absent \<Longrightarrow> view t (replica @ q) = Absent"
proof -
  assume "in_sync source replica t" and v: "view t (source @ q) = Absent"
  then have "converged_entry (view t (source @ q)) (view t (replica @ q)) (view t (replica @ q))"
    unfolding in_sync_def by blast
  then show ?thesis by (simp add: v)
qed

lemma in_sync_Regular:
  "in_sync source replica t \<Longrightarrow> view t (source @ q) = Regular c \<Longrightarrow>
   \<exists>c'. view t (replica @ q) = Regular c' \<and> md5_hex c' = md5_hex c"
proof -
  assume "in_sync source replica t" and v: "view t (source @ q) = Regular c"
  then have "converged_entry (view t (source @ q)) (view t (replica @ q)) (view t (replica @ q))"
    unfolding in_sync_def by blast
  then show ?thesis by (cases "view t (replica @ q)") (auto simp: v split: if_splits)
qed

lemma for_each_noop:
  assumes "\<And>x. x \<in> set xs \<Longrightarrow> body x s = (None, s) \<or> body x s = (Some RecursionError, s)"
  shows "for_each body xs s = (None, s) \<or> for_each body xs s = (Some RecursionError, s)"
  using assms
proof (induction xs)
  case Nil
  then show ?case by simp
next
  case (Cons a xs)
  have "body a s = (None, s) \<or> body a s = (Some RecursionError, s)"
    using Cons.prems by simp
  then show ?case
  proof
    assume "body a s = (None, s)"
    then show ?thesis using Cons.IH Cons.prems by simp
  next
    assume "body a s = (Some RecursionError, s)"
    then show ?thesis by simp
  qed
qed

lemma for_each_skip:
  assumes "\<And>x. x \<in> set xs \<Longrightarrow> body x s = (None, s)"
  shows "for_each body xs s = (None, s)"
  using assms by (induction xs) auto

lemma in_sync_noop:
  "iteration_order ord \<Longrightarrow> in_sync source replica (fs s) \<Longrightarrow>
   sync_folders ord clock depth source replica log_file s = (r, s') \<Longrightarrow>
   s' = s \<and> (view (fs s) source = Directory \<longrightarrow> r = None \<or> r = Some RecursionError)"
proof (induction depth arbitrary: source replica r s')
  case 0
  then show ?case by auto
next
  case (Suc depth)
  note ord = Suc.prems(1) and sync = Suc.prems(2)
  let ?body = "sync_item clock (sync_folders ord clock depth) source replica log_file"
  show ?case
  proof (cases "view (fs s) source = Directory")
    case False
    then have "\<exists>e. listdir (fs s) source = Inl e"
      by (auto simp: view_def listdir_def split: option.splits node.splits)
    with Suc.prems(3) False show ?thesis by auto
  next
    case True
    from in_sync_Directory [OF sync, of "[]"] True have R: "view (fs s) replica = Directory" by simp
    from listdir_Directory [OF True] obtain a where ls: "listdir (fs s) source = Inr a" by blast
    from listdir_Directory [OF R] obtain b where lr: "listdir (fs s) replica = Inr b" by blast
    have sets: "set (ord a) = set a" "set (ord b) = set b"
      using ord by (simp_all add: iteration_order_def)
    have item: "?body x s = (None, s) \<or> ?body x s = (Some RecursionError, s)"
      if "x \<in> set (ord a)" for x
    proof -
      from that sets have pres: "view (fs s) (source @ [x]) \<noteq> Absent"
        using listdir_names [OF ls] by simp
      show ?thesis
      proof (cases "view (fs s) (source @ [x])")
        case Absent
        with pres show ?thesis by simp
      next
        case Directory
        from in_sync_Directory [OF sync Directory] have rd: "view (fs s) (replica @ [x]) = Directory" .
        have eq: "?body x s = sync_folders ord clock depth (source @ [x]) (replica @ [x]) log_file s"
          using Directory rd by (intro sync_item_dir_old) (simp_all add: isdir_view path_exists_view)
        obtain r1 s1 where run: "sync_folders ord clock depth (source @ [x]) (replica @ [x]) log_file s = (r1, s1)"
          by (cases "sync_folders ord clock depth (source @ [x]) (replica @ [x]) log_file s")
        from Suc.IH [OF ord in_sync_child [OF sync] run] Directory
        show ?thesis using eq run by auto
      next
        case (Regular c)
        from in_sync_Regular [OF sync Regular] obtain c' where
          c': "view (fs s) (replica @ [x]) = Regular c'" "md5_hex c' = md5_hex c" by blast
        from Regular c'(1) obtain m m' where l: "lookup (fs s) (source @ [x]) = Some (File c m)"
          "lookup (fs s) (replica @ [x]) = Some (File c' m')"
          by (auto simp: view_Regular_iff)
        have "?body x s = (None, s)"
          using Regular c' by (subst sync_item_file_old)
            (simp_all add: isdir_view path_exists_view calculate_md5_File [OF l(1)] calculate_md5_File [OF l(2)])
        then show ?thesis ..
      qed
    qed
    have prune: "prune_item clock (ord a) replica log_file x s = (None, s)" if "x \<in> set (ord b)" for x
    proof -
      from that sets have "view (fs s) (replica @ [x]) \<noteq> Absent"
        using listdir_names [OF lr] by simp
      with in_sync_Absent [OF sync, of "[x]"] have "view (fs s) (source @ [x]) \<noteq> Absent" by auto
      then have "x \<in> set (ord a)" using sets listdir_names [OF ls] by simp
      then show ?thesis by (rule prune_item_kept)
    qed
    have l2: "for_each (prune_item clock (ord a) replica log_file) (ord b) s = (None, s)"
      by (rule for_each_skip) (rule prune)
    from for_each_noop [of "ord a" ?body s, OF item]
    show ?thesis
    proof
      assume "for_each ?body (ord a) s = (None, s)"
      with Suc.prems(3) ls lr l2 show ?thesis by (simp add: Let_def)
    next
      assume "for_each ?body (ord a) s = (Some RecursionError, s)"
      with Suc.prems(3) ls lr show ?thesis by (simp add: Let_def)
    qed
  qed
qed


section \<open>What a pass logs, however it ends\<close>

lemma due_at_cong_child:
  assumes "\<And>r. view t (source @ r) = view t' (source @ r)"
    and "\<And>r. view t (replica @ y # r) = view t' (replica @ y # r)"
    and "view t replica = view t' replica"
  shows "due_at t source replica (y # q) m = due_at t' source replica (y # q) m"
proof (cases "q = []")
  case True
  then show ?thesis using assms(1) [of "[y]"] assms(1) [of "[]"] assms(2) [of "[]"] assms(3)
    by (cases m) simp_all
next
  case False
  then show ?thesis using assms(1) [of "y # q"] assms(1) [of "y # butlast q"]
      assms(2) [of q] assms(2) [of "butlast q"]
    by (cases m) simp_all
qed

lemma for_each_logged:
  assumes body: "\<And>y s r s'. isdir (fs s) replica \<Longrightarrow> body y s = (r, s') \<Longrightarrow> within log_file (replica @ [y]) s s'"
  shows "isdir (fs s) replica \<Longrightarrow> for_each body xs s = (r, s') \<Longrightarrow> m \<in> set (new_ops s s') \<Longrightarrow>
         \<exists>ys y zs sa ry sb. xs = ys @ y # zs \<and> for_each body ys s = (None, sa) \<and>
            body y sa = (ry, sb) \<and> m \<in> set (new_ops sa sb)"
proof (induction xs arbitrary: s)
  case Nil
  then show ?case by simp
next
  case (Cons x xs)
  obtain r1 s1 where b: "body x s = (r1, s1)" by (cases "body x s")
  have w: "within log_file (replica @ [x]) s s1" using body [OF Cons.prems(1) b] .
  have here: ?case if "m \<in> set (new_ops s s1)"
  proof -
    have "x # xs = [] @ x # xs \<and> for_each body [] s = (None, s) \<and> body x s = (r1, s1) \<and>
          m \<in> set (new_ops s s1)" using b that by simp
    then show ?thesis by blast
  qed
  show ?case
  proof (cases r1)
    case (Some e)
    with b Cons.prems(2) have "s' = s1" by simp
    with Cons.prems(3) show ?thesis by (intro here) simp
  next
    case None
    with b Cons.prems(2) have rest: "for_each body xs s1 = (r, s')" by simp
    have d1: "isdir (fs s1) replica"
      using below_isdir [OF within_child_imp_below [OF w]] Cons.prems(1) by simp
    have bl: "below log_file replica s1 s'"
      by (rule for_each_below [of replica body, OF _ d1 rest]) (rule body)
    have "new_ops s s' = new_ops s s1 @ new_ops s1 s'"
      using within_log [OF w] below_log [OF bl] by (rule new_ops_trans)
    with Cons.prems(3) consider "m \<in> set (new_ops s s1)" | "m \<in> set (new_ops s1 s')" by auto
    then show ?thesis
    proof cases
      case 1
      then show ?thesis by (rule here)
    next
      case 2
      from Cons.IH [OF d1 rest 2] obtain ys y zs sa ry sb where
        "xs = ys @ y # zs" "for_each body ys s1 = (None, sa)" "body y sa = (ry, sb)"
        "m \<in> set (new_ops sa sb)" by blast
      then have "x # xs = (x # ys) @ y # zs \<and> for_each body (x # ys) s = (None, sa) \<and>
          body y sa = (ry, sb) \<and> m \<in> set (new_ops sa sb)"
        using b None by simp
      then show ?thesis by blast
    qed
  qed
qed

lemma do_copy_logged:
  assumes "do_copy clock src dst log_file s = (r, s')" and "m \<in> set (new_ops s s')"
    and "\<not> isdir (fs s) dst"
  shows "(\<exists>c. view (fs s) src = Regular c) \<and> m = FileCopied dst"
proof (cases "copy2 src dst (fs s)")
  case (Inl e)
  with assms show ?thesis by (simp add: do_copy_def)
next
  case (Inr t)
  with assms(1) have "log_operation clock (FileCopied dst) log_file (s\<lparr>fs := t\<rparr>) = (r, s')"
    by (simp add: do_copy_def)
  from logged_ops [OF this] assms(2) copy2_result [OF Inr assms(3)] show ?thesis
    by (auto simp: view_def)
qed

lemma sync_item_logged:
  assumes D: "isdir (fs s) replica"
    and item: "sync_item clock self source replica log_file y s = (r, s')"
    and m: "m \<in> set (new_ops s s')"
  shows "(view (fs s) (source @ [y]) = Directory \<and> view (fs s) (replica @ [y]) = Absent \<and>
          m = DirectoryCreated (replica @ [y])) \<or>
         (view (fs s) (source @ [y]) = Directory \<and> view (fs s) (replica @ [y]) \<noteq> Absent \<and>
          self (source @ [y]) (replica @ [y]) log_file s = (r, s')) \<or>
         (\<exists>c. view (fs s) (source @ [y]) = Regular c \<and>
              (view (fs s) (replica @ [y]) = Absent \<or>
               (\<exists>c'. view (fs s) (replica @ [y]) = Regular c' \<and> md5_hex c' \<noteq> md5_hex c)) \<and>
              m = FileCopied (replica @ [y]))"
proof (cases "isdir (fs s) (source @ [y])")
  case True
  show ?thesis
  proof (cases "path_exists (fs s) (replica @ [y])")
    case ex: True
    with True item show ?thesis
      by (simp add: sync_item_dir_old isdir_view path_exists_view)
  next
    case ne: False
    show ?thesis
    proof (cases "copytree (source @ [y]) (replica @ [y]) (fs s)")
      case (Inl e)
      with True ne item m show ?thesis by (simp add: sync_item_dir_new)
    next
      case (Inr t)
      with True ne item
      have "log_operation clock (DirectoryCreated (replica @ [y])) log_file (s\<lparr>fs := t\<rparr>) = (r, s')"
        by (simp add: sync_item_dir_new)
      from logged_ops [OF this] m True ne show ?thesis
        by (simp add: isdir_view path_exists_view)
    qed
  qed
next
  case False
  show ?thesis
  proof (cases "path_exists (fs s) (replica @ [y])")
    case ne: False
    with False item have "do_copy clock (source @ [y]) (replica @ [y]) log_file s = (r, s')"
      by (simp add: sync_item_file_new)
    from do_copy_logged [OF this m not_exists_not_isdir [OF ne]] ne show ?thesis
      by (auto simp: path_exists_view)
  next
    case ex: True
    show ?thesis
    proof (cases "calculate_md5 (fs s) (source @ [y])")
      case (Inl e)
      with item m show ?thesis unfolding sync_item_file_old [OF False ex] by simp
    next
      case h1: (Inr h1)
      show ?thesis
      proof (cases "calculate_md5 (fs s) (replica @ [y])")
        case (Inl e)
        with item m h1 show ?thesis unfolding sync_item_file_old [OF False ex] by simp
      next
        case h2: (Inr h2)
        from calculate_md5_Inr [OF h1] obtain c k where c: "lookup (fs s) (source @ [y]) = Some (File c k)"
          by blast
        from calculate_md5_Inr [OF h2] obtain c' k' where
          c': "lookup (fs s) (replica @ [y]) = Some (File c' k')" by blast
        have hh: "h1 = md5_hex c" "h2 = md5_hex c'"
          using h1 h2 by (simp_all add: calculate_md5_File [OF c] calculate_md5_File [OF c'])
        have vs: "view (fs s) (source @ [y]) = Regular c" "view (fs s) (replica @ [y]) = Regular c'"
          using c c' by (simp_all add: view_def)
        show ?thesis
        proof (cases "h1 = h2")
          case True
          with item m h1 h2 show ?thesis unfolding sync_item_file_old [OF False ex] by simp
        next
          case ne: False
          with item h1 h2 have "do_copy clock (source @ [y]) (replica @ [y]) log_file s = (r, s')"
            unfolding sync_item_file_old [OF False ex] by simp
          from do_copy_logged [OF this m isdir_not_File [OF c']] vs hh ne show ?thesis by auto
        qed
      qed
    qed
  qed
qed

lemma sync_item_logged_due:
  assumes self: "\<And>u r u' m. self (source @ [y]) (replica @ [y]) log_file u = (r, u') \<Longrightarrow>
                 m \<in> set (new_ops u u') \<Longrightarrow> due (fs u) (source @ [y]) (replica @ [y]) m"
    and D: "isdir (fs s) replica"
    and item: "sync_item clock self source replica log_file y s = (r, s')"
    and m: "m \<in> set (new_ops s s')"
  shows "due (fs s) source replica m"
proof -
  have DR: "view (fs s) replica = Directory" using D by (simp add: isdir_view)
  from sync_item_logged [OF D item m]
  consider
    (A) "view (fs s) (source @ [y]) = Directory" "view (fs s) (replica @ [y]) = Absent"
        "m = DirectoryCreated (replica @ [y])"
  | (B) "self (source @ [y]) (replica @ [y]) log_file s = (r, s')"
  | (C) c where "view (fs s) (source @ [y]) = Regular c"
        "view (fs s) (replica @ [y]) = Absent \<or>
           (\<exists>c'. view (fs s) (replica @ [y]) = Regular c' \<and> md5_hex c' \<noteq> md5_hex c)"
        "m = FileCopied (replica @ [y])"
    by blast
  then show ?thesis
  proof cases
    case A
    have "due_at (fs s) source replica [y] m"
      using due_at_top_created [OF A(1,2) DR, of m "[]"] A(3) by simp
    then show ?thesis using A(3) by (auto simp: due_def)
  next
    case B
    from self [OF B m] obtain q where
      q: "q \<noteq> []" "op_path m = (replica @ [y]) @ q" "due_at (fs s) (source @ [y]) (replica @ [y]) q m"
      by (auto simp: due_def)
    have "due_at (fs s) source replica (y # q) m"
      using q(1,3) by (simp add: due_at_child)
    then show ?thesis using q(2) by (auto simp: due_def)
  next
    case C
    have "due_at (fs s) source replica [y] m"
      using due_at_top_copied [OF C(1,2) DR, of m "[]"] C(3) by simp
    then show ?thesis using C(3) by (auto simp: due_def)
  qed
qed

lemma prune_item_logged:
  assumes item: "prune_item clock source_files replica log_file y s = (r, s')"
    and m: "m \<in> set (new_ops s s')"
  shows "y \<notin> set source_files \<and>
         ((view (fs s) (replica @ [y]) = Directory \<and> m = DirectoryRemoved (replica @ [y])) \<or>
          ((\<exists>c. view (fs s) (replica @ [y]) = Regular c) \<and> m = FileRemoved (replica @ [y])))"
proof -
  have ny: "y \<notin> set source_files" using item m by (auto simp: prune_item_kept)
  show ?thesis
  proof (cases "isdir (fs s) (replica @ [y])")
    case True
    show ?thesis
    proof (cases "rmtree (replica @ [y]) (fs s)")
      case (Inl e)
      with item m ny True show ?thesis by (simp add: prune_item_def)
    next
      case (Inr t)
      with item ny True
      have "log_operation clock (DirectoryRemoved (replica @ [y])) log_file (s\<lparr>fs := t\<rparr>) = (r, s')"
        by (simp add: prune_item_def)
      from logged_ops [OF this] m ny True show ?thesis by (simp add: isdir_view)
    qed
  next
    case False
    show ?thesis
    proof (cases "remove (replica @ [y]) (fs s)")
      case (Inl e)
      with item m ny False show ?thesis by (simp add: prune_item_def)
    next
      case (Inr t)
      with item ny False
      have "log_operation clock (FileRemoved (replica @ [y])) log_file (s\<lparr>fs := t\<rparr>) = (r, s')"
        by (simp add: prune_item_def)
      from logged_ops [OF this] m ny remove_result [OF Inr] show ?thesis by (auto simp: view_def)
    qed
  qed
qed

lemma prune_item_logged_due:
  assumes item: "prune_item clock source_files replica log_file y s = (r, s')"
    and m: "m \<in> set (new_ops s s')"
    and gone: "view (fs s) (source @ [y]) = Absent" and DS: "view (fs s) source = Directory"
  shows "due (fs s) source replica m"
proof -
  from prune_item_logged [OF item m]
  consider (d) "view (fs s) (replica @ [y]) = Directory" "m = DirectoryRemoved (replica @ [y])"
    | (f) c where "view (fs s) (replica @ [y]) = Regular c" "m = FileRemoved (replica @ [y])"
    by blast
  then show ?thesis
  proof cases
    case d
    have "due_at (fs s) source replica [y] m"
      using due_at_top_removed_dir [OF gone d(1) DS, of m "[]"] d(2) by simp
    then show ?thesis using d(2) by (auto simp: due_def)
  next
    case f
    have "due_at (fs s) source replica [y] m"
      using due_at_top_removed_file [OF gone f(1) DS, of m "[]"] f(2) by simp
    then show ?thesis using f(2) by (auto simp: due_def)
  qed
qed

lemma due_transport:
  assumes "due t' source replica m" and "prefix (replica @ [y]) (op_path m)"
    and "\<And>r. view t (source @ r) = view t' (source @ r)"
    and "\<And>r. view t (replica @ y # r) = view t' (replica @ y # r)"
    and "view t replica = view t' replica"
  shows "due t source replica m"
proof -
  from assms(1) obtain q where q: "q \<noteq> []" "op_path m = replica @ q" "due_at t' source replica q m"
    by (auto simp: due_def)
  from assms(2) q(2) obtain q' where q': "q = y # q'" by (auto simp: prefix_def)
  have "due_at t source replica (y # q') m = due_at t' source replica (y # q') m"
    using assms(3,4,5) by (rule due_at_cong_child)
  with q q' show ?thesis by (auto simp: due_def)
qed

lemma below_view_self:
  "below log_file p s s' \<Longrightarrow> p \<noteq> log_file \<Longrightarrow> view (fs s') p = view (fs s) p"
  by (auto simp: below_def intro: same_or_logged_view)

lemma logged_due:
  "separate source replica \<Longrightarrow> iteration_order ord \<Longrightarrow>
   sync_folders ord clock depth source replica log_file s = (r, s') \<Longrightarrow> m \<in> set (new_ops s s') \<Longrightarrow>
   separate log_file source \<Longrightarrow> separate log_file replica \<Longrightarrow>
   due (fs s) source replica m"
proof (induction depth arbitrary: source replica s r s' m)
  case 0
  then show ?case by simp
next
  case (Suc depth)
  note sep = Suc.prems(1) and ord = Suc.prems(2) and m = Suc.prems(4)
    and outs = Suc.prems(5) and out = Suc.prems(6)
  have neq: "replica \<noteq> log_file" using out by (auto simp: separate_def)
  let ?body = "sync_item clock (sync_folders ord clock depth) source replica log_file"
  have c1: "within log_file (replica @ [y]) u u'"
    if "isdir (fs u) replica" "?body y u = (r, u')" for y u r u'
    using that by (intro sync_item_within [where self = "sync_folders ord clock depth" and source = source])
      (rule sync_folders_below)
  show ?case
  proof (cases "listdir (fs s) source")
    case (Inl e)
    with Suc.prems(3) m show ?thesis by simp
  next
    case ls: (Inr a)
    show ?thesis
    proof (cases "listdir (fs s) replica")
      case (Inl e)
      with Suc.prems(3) ls m show ?thesis by simp
    next
      case lr: (Inr b)
      have D: "isdir (fs s) replica" using lr by (rule listdir_Inr_isdir)
      have DS: "view (fs s) source = Directory"
        using listdir_Inr_isdir [OF ls] by (simp add: isdir_view)
      have dist: "distinct (ord a)" "distinct (ord b)" "set (ord a) = set a" "set (ord b) = set b"
        using ord by (simp_all add: iteration_order_def)
      obtain r1 s1 where l1: "for_each ?body (ord a) s = (r1, s1)" by (cases "for_each ?body (ord a) s")
      have B1: "below log_file replica s s1"
        by (rule for_each_below [of replica ?body, OF _ D l1]) (rule c1)
      have D1: "isdir (fs s1) replica" using below_isdir [OF B1] D by simp
      have first: ?thesis if m1: "m \<in> set (new_ops s s1)"
      proof -
        have "\<exists>ys y zs sa ry sb. ord a = ys @ y # zs \<and> for_each ?body ys s = (None, sa) \<and>
            ?body y sa = (ry, sb) \<and> m \<in> set (new_ops sa sb)"
          by (rule for_each_logged [of replica ?body, OF _ D l1 m1]) (rule c1)
        then obtain ys y zs sa ry sb where
          split: "ord a = ys @ y # zs" and pre: "for_each ?body ys s = (None, sa)" and
          item: "?body y sa = (ry, sb)" and ma: "m \<in> set (new_ops sa sb)" by blast
        have ny: "y \<notin> set ys" using dist(1) split by auto
        have "below log_file replica s sa \<and> untouched (replica @ [y]) s sa \<and> isdir (fs sa) replica"
          by (rule loop_before_item [of replica ?body, OF _ out D ny pre]) (rule c1)
        then have bsa: "below log_file replica s sa" and usa: "untouched (replica @ [y]) s sa"
          and Dsa: "isdir (fs sa) replica" by blast+
        have vs: "view (fs s) (source @ p) = view (fs sa) (source @ p)" for p
          using below_source_view [OF bsa sep outs, of p] by simp
        have vr: "view (fs s) (replica @ y # p) = view (fs sa) (replica @ y # p)" for p
          using untouched_view [OF usa, of p] by simp
        have dm: "due (fs sa) source replica m"
          using _ Dsa item ma
        proof (rule sync_item_logged_due)
          show "due (fs u) (source @ [y]) (replica @ [y]) k"
            if "sync_folders ord clock depth (source @ [y]) (replica @ [y]) log_file u = (r', u')"
              "k \<in> set (new_ops u u')" for u r' u' k
            using separate_child [OF sep] ord that separate_append [OF outs] separate_append [OF out]
            by (rule Suc.IH)
        qed
        have pm: "prefix (replica @ [y]) (op_path m)"
          using within_ops [OF c1 [OF Dsa item] ma] .
        have vself: "view (fs s) replica = view (fs sa) replica"
          using below_view_self [OF bsa neq] by simp
        show ?thesis
          by (rule due_transport [where t' = "fs sa" and y = y, OF dm pm vs vr vself])
      qed
      show ?thesis
      proof (cases r1)
        case (Some e)
        with Suc.prems(3) ls lr l1 have "s' = s1" by (simp add: Let_def)
        with m show ?thesis by (intro first) simp
      next
        case None
        with Suc.prems(3) ls lr l1
        have l2: "for_each (prune_item clock (ord a) replica log_file) (ord b) s1 = (r, s')" by (simp add: Let_def)
        have B2: "below log_file replica s1 s'"
          by (rule for_each_below [of replica "prune_item clock (ord a) replica log_file", OF _ D1 l2])
            (rule prune_item_within)
        have "new_ops s s' = new_ops s s1 @ new_ops s1 s'"
          using below_log [OF B1] below_log [OF B2] by (rule new_ops_trans)
        with m consider "m \<in> set (new_ops s s1)" | "m \<in> set (new_ops s1 s')" by auto
        then show ?thesis
        proof cases
          case 1
          then show ?thesis by (rule first)
        next
          case 2
          have "\<exists>ys y zs sa ry sb. ord b = ys @ y # zs \<and>
              for_each (prune_item clock (ord a) replica log_file) ys s1 = (None, sa) \<and>
              prune_item clock (ord a) replica log_file y sa = (ry, sb) \<and> m \<in> set (new_ops sa sb)"
            by (rule for_each_logged [of replica "prune_item clock (ord a) replica log_file", OF _ D1 l2 2])
              (rule prune_item_within)
          then obtain ys y zs sa ry sb where
            split: "ord b = ys @ y # zs" and
            pre: "for_each (prune_item clock (ord a) replica log_file) ys s1 = (None, sa)" and
            item: "prune_item clock (ord a) replica log_file y sa = (ry, sb)" and
            ma: "m \<in> set (new_ops sa sb)" by blast
          have ny: "y \<notin> set ys" using dist(2) split by auto
          have nya: "y \<notin> set (ord a)" using item ma by (auto simp: prune_item_kept)
          have u1: "untouched (replica @ [y]) s s1"
            by (rule for_each_untouched [of replica ?body, OF _ out D nya l1]) (rule c1)
          have "below log_file replica s1 sa \<and> untouched (replica @ [y]) s1 sa \<and> isdir (fs sa) replica"
            by (rule loop_before_item [of replica "prune_item clock (ord a) replica log_file", OF _ out D1 ny pre])
              (rule prune_item_within)
          then have bsa: "below log_file replica s1 sa" and usa: "untouched (replica @ [y]) s1 sa" by blast+
          have vs: "view (fs s) (source @ p) = view (fs sa) (source @ p)" for p
            using below_source_view [OF bsa sep outs, of p] below_source_view [OF B1 sep outs, of p] by simp
          have vr: "view (fs s) (replica @ y # p) = view (fs sa) (replica @ y # p)" for p
            using untouched_view [OF usa, of p] untouched_view [OF u1, of p] by simp
          have vself: "view (fs s) replica = view (fs sa) replica"
            using below_view_self [OF bsa neq] below_view_self [OF B1 neq] by simp
          have "view (fs s) (source @ [y]) = Absent"
            using nya dist(3) listdir_names [OF ls, of y] by simp
          then have gone: "view (fs sa) (source @ [y]) = Absent" using vs [of "[y]"] by simp
          have DSa: "view (fs sa) source = Directory" using DS vs [of "[]"] by simp
          have dm: "due (fs sa) source replica m"
            using item ma gone DSa by (rule prune_item_logged_due)
          have pm: "prefix (replica @ [y]) (op_path m)"
            using within_ops [OF prune_item_within [OF item] ma] .
          show ?thesis
            by (rule due_transport [where t' = "fs sa" and y = y, OF dm pm vs vr vself])
        qed
      qed
    qed
  qed
qed

lemma logged_due_at:
  assumes "separate source replica" and "iteration_order ord"
    and "sync_folders ord clock depth source replica log_file s = (r, s')"
    and "m \<in> set (new_ops s s')"
    and "separate log_file source" and "separate log_file replica"
  shows "\<exists>q. q \<noteq> [] \<and> op_path m = replica @ q \<and> due_at (fs s) source replica q m"
  using logged_due [OF assms] by (simp add: due_def)

section \<open>Concrete runs\<close>

lemma remdups_order: "iteration_order remdups"
  by (simp add: iteration_order_def)

lemma separate_example:
  "separate [''source''] [''replica'']"
  "separate [''sync.log''] [''source'']"
  "separate [''sync.log''] [''replica'']"
  by (simp_all add: separate_def)

lemma log_operation_eval:
  "log_operation clock m log_file s =
     (case append_to log_file (log_line clock (length (log s)) m) (fst (clock (length (log s)))) (fs s) of
        Inl e \<Rightarrow> (Some e, s\<lparr>log := log s @ [m]\<rparr>)
      | Inr t \<Rightarrow> (None, s\<lparr>log := log s @ [m], fs := t\<rparr>))"
  by (simp add: log_operation_def log_line_def Let_def case_prod_beta)

lemma two_orders:
  assumes "distinct xs" "set xs = {a, b}" "a \<noteq> b"
  shows "xs = [a, b] \<or> xs = [b, a]"
proof -
  from assms have "length xs = 2"
    by (metis card_2_iff distinct_card)
  then obtain x y where xs: "xs = [x, y]"
    by (metis (no_types, opaque_lifting) One_nat_def Suc_1 length_0_conv length_Suc_conv)
  with assms show ?thesis by auto
qed

lemma example_run:
  assumes "src_order = [''a.txt'', ''sub''] \<or> src_order = [''sub'', ''a.txt'']"
    and "rep_order = [''a.txt'', ''c.txt''] \<or> rep_order = [''c.txt'', ''a.txt'']"
  shows "(case for_each (sync_item clock self [''source''] [''replica''] [''sync.log'']) src_order
                 \<lparr>fs = example_before, log = []\<rparr> of
                  (Some e, s') \<Rightarrow> (Some e, s')
                | (None, s') \<Rightarrow> for_each (prune_item clock src_order [''replica''] [''sync.log'']) rep_order s')
     = (None, \<lparr>fs = example_after clock,
          log = [DirectoryCreated [''replica'', ''sub''], FileRemoved [''replica'', ''c.txt'']]\<rparr>)"
  using assms
  apply (elim disjE)
  apply (simp_all add: example_before_def example_after_def sync_item_def prune_item_def
     isdir_def path_exists_def copytree_def copy2_def rmtree_def remove_def log_operation_eval
     append_to_def Let_def calculate_md5_def open_rb_def)
  done

lemma example_pass:
  assumes "iteration_order ord"
  shows "sync_folders ord clock (Suc depth) [''source''] [''replica''] [''sync.log'']
           \<lparr>fs = example_before, log = []\<rparr> =
     (None, \<lparr>fs = example_after clock,
          log = [DirectoryCreated [''replica'', ''sub''], FileRemoved [''replica'', ''c.txt'']]\<rparr>)"
proof -
  have l1: "listdir example_before [''source''] = Inr [''a.txt'', ''sub'']"
    by (simp add: listdir_def example_before_def)
  have l2: "listdir example_before [''replica''] = Inr [''a.txt'', ''c.txt'']"
    by (simp add: listdir_def example_before_def)
  have o1: "ord [''a.txt'', ''sub''] = [''a.txt'', ''sub''] \<or> ord [''a.txt'', ''sub''] = [''sub'', ''a.txt'']"
    using assms by (intro two_orders) (auto simp: iteration_order_def)
  have o2: "ord [''a.txt'', ''c.txt''] = [''a.txt'', ''c.txt''] \<or> ord [''a.txt'', ''c.txt''] = [''c.txt'', ''a.txt'']"
    using assms by (intro two_orders) (auto simp: iteration_order_def)
  show ?thesis
    using example_run [OF o1 o2] by (simp add: l1 l2 Let_def)
qed

lemma collision_pass:
  "sync_folders remdups clock (Suc depth) [''source''] [''replica''] [''sync.log'']
     \<lparr>fs = collision_fs, log = []\<rparr> =
     (None, \<lparr>fs = collision_fs, log = []\<rparr>)"
  by (simp add: collision_fs_def listdir_def sync_item_def prune_item_def isdir_def path_exists_def
      Let_def calculate_md5_File md5_wang_a md5_wang_b)

lemma mismatch_pass:
  "sync_folders remdups clock (Suc (Suc depth)) [''source''] [''replica''] [''sync.log'']
     \<lparr>fs = mismatch_fs, log = []\<rparr> =
     (Some (NotADirectoryError [''replica'', ''d'']),
      \<lparr>fs = Dir [(''source'', Dir [(''a.txt'', File hello 1), (''d'', Dir [])]),
                 (''replica'', Dir [(''d'', File [0x31] 5), (''a.txt'', File hello 1)]),
                 (''sync.log'', File (log_line clock 0 (FileCopied [''replica'', ''a.txt''])) (fst (clock 0)))],
       log = [FileCopied [''replica'', ''a.txt'']]\<rparr>)"
  by (simp add: mismatch_fs_def listdir_def sync_item_def prune_item_def isdir_def path_exists_def
      Let_def copy2_def open_rb_def log_operation_eval append_to_def)

lemma mismatch_pass2:
  "sync_folders remdups clock (Suc depth) [''source''] [''replica''] [''sync.log'']
     \<lparr>fs = mismatch_fs2, log = []\<rparr> =
     (Some (IsADirectoryError [''replica'', ''x'']), \<lparr>fs = mismatch_fs2, log = []\<rparr>)"
  by (simp add: mismatch_fs2_def listdir_def sync_item_def prune_item_def isdir_def path_exists_def
      Let_def calculate_md5_File calculate_md5_Dir)

text \<open>The source inside the replica: the pass removes the source.\<close>

lemma nested_pass:
  "sync_folders remdups clock (Suc depth) [''r'', ''s''] [''r''] [''sync.log'']
     \<lparr>fs = nested_fs, log = []\<rparr> =
     (None, \<lparr>fs = Dir [(''r'', Dir [(''x'', File [0x31] 0)]),
                       (''sync.log'',
                          File (log_line clock 0 (FileCopied [''r'', ''x'']) @
                                log_line clock 1 (DirectoryRemoved [''r'', ''s'']))
                               (fst (clock 1)))],
             log = [FileCopied [''r'', ''x''], DirectoryRemoved [''r'', ''s'']]\<rparr>)"
  by (simp add: nested_fs_def listdir_def sync_item_def prune_item_def isdir_def path_exists_def
      Let_def copy2_def open_rb_def rmtree_def log_operation_eval append_to_def)

text \<open>The replica inside the source: every pass creates one more level.\<close>

lemma inner_pass:
  "sync_folders remdups clock (Suc depth) [''s''] [''s'', ''r''] [''sync.log'']
     \<lparr>fs = inner_fs, log = []\<rparr> =
     (None, \<lparr>fs = Dir [(''s'', Dir [(''r'', Dir [(''r'', Dir [])])]),
                       (''sync.log'',
                          File (log_line clock 0 (DirectoryCreated [''s'', ''r'', ''r''])) (fst (clock 0)))],
             log = [DirectoryCreated [''s'', ''r'', ''r'']]\<rparr>)"
  by (simp add: inner_fs_def listdir_def sync_item_def prune_item_def isdir_def path_exists_def
      Let_def copytree_def log_operation_eval append_to_def)

lemma inner_pass_again:
  "sync_folders remdups clock (Suc (Suc depth)) [''s''] [''s'', ''r''] [''sync.log'']
     \<lparr>fs = Dir [(''s'', Dir [(''r'', Dir [(''r'', Dir [])])]),
                (''sync.log'',
                   File (log_line clock 0 (DirectoryCreated [''s'', ''r'', ''r''])) (fst (clock 0)))],
      log = [DirectoryCreated [''s'', ''r'', ''r'']]\<rparr> =
     (None, \<lparr>fs = Dir [(''s'', Dir [(''r'', Dir [(''r'', Dir [(''r'', Dir [])])])]),
                       (''sync.log'',
                          File (log_line clock 0 (DirectoryCreated [''s'', ''r'', ''r'']) @
                                log_line clock 1 (DirectoryCreated [''s'', ''r'', ''r'', ''r'']))
                               (fst (clock 1)))],
             log = [DirectoryCreated [''s'', ''r'', ''r''], DirectoryCreated [''s'', ''r'', ''r'', ''r'']]\<rparr>)"
  by (simp add: listdir_def sync_item_def prune_item_def isdir_def path_exists_def
      Let_def copytree_def log_operation_eval append_to_def)

text \<open>
  The log file inside the replica: the pass removes it as an entry the source lacks, and the
  record of that removal creates it again.
\<close>

lemma log_in_replica_pass:
  "sync_folders remdups clock (Suc depth) [''source''] [''replica''] [''replica'', ''sync.log'']
     \<lparr>fs = log_in_replica bytes time, log = ops\<rparr> =
     (None, \<lparr>fs = log_in_replica (log_line clock (length ops) (FileRemoved [''replica'', ''sync.log'']))
                    (fst (clock (length ops))),
             log = ops @ [FileRemoved [''replica'', ''sync.log'']]\<rparr>)"
  by (simp add: log_in_replica_def listdir_def sync_item_def prune_item_def isdir_def path_exists_def
      Let_def remove_def log_operation_eval append_to_def)

text \<open>The log file inside the source: the record of a copy is written into the source.\<close>

lemma log_in_source_pass:
  "sync_folders remdups clock (Suc depth) [''source''] [''replica''] [''source'', ''sync.log'']
     \<lparr>fs = one_file_fs, log = []\<rparr> =
     (None, \<lparr>fs = Dir [(''source'', Dir [(''f'', File hello 1),
                                          (''sync.log'',
                                             File (log_line clock 0 (FileCopied [''replica'', ''f'']))
                                                  (fst (clock 0)))]),
                       (''replica'', Dir [(''f'', File hello 1)])],
             log = [FileCopied [''replica'', ''f'']]\<rparr>)"
  by (simp add: one_file_fs_def listdir_def sync_item_def prune_item_def isdir_def path_exists_def
      Let_def copy2_def open_rb_def log_operation_eval append_to_def)

text \<open>A log file in a directory that is not there: the copy is made, the record fails.\<close>

lemma log_missing_pass:
  "sync_folders remdups clock (Suc depth) [''source''] [''replica''] [''logs'', ''sync.log'']
     \<lparr>fs = one_file_fs, log = []\<rparr> =
     (Some (FileNotFoundError [''logs'', ''sync.log'']),
      \<lparr>fs = Dir [(''source'', Dir [(''f'', File hello 1)]), (''replica'', Dir [(''f'', File hello 1)])],
       log = [FileCopied [''replica'', ''f'']]\<rparr>)"
  by (simp add: one_file_fs_def listdir_def sync_item_def prune_item_def isdir_def path_exists_def
      Let_def copy2_def open_rb_def log_operation_eval append_to_def no_entry_def)

section \<open>The claims\<close>

text \<open>
  C1, as amended.  Convergence: for a source and a replica that are separate trees and a log
  file outside both, after a pass that ended normally the source is as it was and every path
  under the replica shows what the same path under the source shows (the same names, the
  same kinds, the same bytes, and nothing where the source has nothing), with one exception:
  a replica file whose bytes differ from the source file of the same name but whose MD5
  digest is the same is left as it was, bytes and modification time.
\<close>

theorem convergence:
  assumes "separate source replica" and "separate log_file source" and "separate log_file replica"
    and "iteration_order ord"
    and "sync_folders ord clock depth source replica log_file s = (None, s')"
  shows "view (fs s') (source @ q) = view (fs s) (source @ q) \<and>
         (if collides (fs s) source replica q
          then lookup (fs s') (replica @ q) = lookup (fs s) (replica @ q)
          else view (fs s') (replica @ q) = view (fs s') (source @ q))"
proof -
  have src: "view (fs s') (source @ q) = view (fs s) (source @ q)"
    using sync_folders_below [OF assms(5)] assms(1,2) by (rule below_source_view)
  have kept: "lookup (fs s') (replica @ q) = lookup (fs s) (replica @ q)"
    if "collides (fs s) source replica q"
  proof -
    from that obtain c c' where "view (fs s) (source @ q) = Regular c"
      "view (fs s) (replica @ q) = Regular c'" "md5_hex c' = md5_hex c"
      by (auto simp: collides_def)
    then show ?thesis using assms by (intro equal_digest_kept [where source = source and ord = ord])
  qed
  have conv: "view (fs s') (replica @ q) = view (fs s) (source @ q)"
    if "\<not> collides (fs s) source replica q"
  proof -
    have "converged_entry (view (fs s) (source @ q)) (view (fs s) (replica @ q))
            (view (fs s') (replica @ q))"
      using assms(1,4,2,3,5) by (rule reconciled_view)
    with that show ?thesis
      by (cases "view (fs s) (source @ q)"; cases "view (fs s) (replica @ q)")
         (auto simp: collides_def split: if_splits)
  qed
  from src kept conv show ?thesis by simp
qed

theorem convergence_witness:
  "separate [''source''] [''replica''] \<and> separate [''sync.log''] [''source''] \<and>
   separate [''sync.log''] [''replica''] \<and> iteration_order remdups \<and>
   sync_folders remdups example_clock (Suc 0) [''source''] [''replica''] [''sync.log'']
     \<lparr>fs = example_before, log = []\<rparr> =
     (None, \<lparr>fs = example_after example_clock,
          log = [DirectoryCreated [''replica'', ''sub''], FileRemoved [''replica'', ''c.txt'']]\<rparr>) \<and>
   \<not> collides example_before [''source''] [''replica''] [''sub'', ''b.txt''] \<and>
   view (example_after example_clock) ([''source''] @ [''sub'', ''b.txt'']) =
     view example_before ([''source''] @ [''sub'', ''b.txt'']) \<and>
   view (example_after example_clock) ([''replica''] @ [''sub'', ''b.txt'']) =
     view (example_after example_clock) ([''source''] @ [''sub'', ''b.txt''])"
proof -
  have run: "sync_folders remdups example_clock (Suc 0) [''source''] [''replica''] [''sync.log'']
     \<lparr>fs = example_before, log = []\<rparr> =
     (None, \<lparr>fs = example_after example_clock,
          log = [DirectoryCreated [''replica'', ''sub''], FileRemoved [''replica'', ''c.txt'']]\<rparr>)"
    using remdups_order by (rule example_pass)
  have nc: "\<not> collides example_before [''source''] [''replica''] [''sub'', ''b.txt'']"
    by (simp add: collides_def example_before_def)
  from convergence [OF separate_example remdups_order run, where q = "[''sub'', ''b.txt'']"] nc
  have "view (example_after example_clock) ([''source''] @ [''sub'', ''b.txt'']) =
     view example_before ([''source''] @ [''sub'', ''b.txt'']) \<and>
   view (example_after example_clock) ([''replica''] @ [''sub'', ''b.txt'']) =
     view (example_after example_clock) ([''source''] @ [''sub'', ''b.txt''])"
    by simp
  with separate_example remdups_order run nc show ?thesis by blast
qed

text \<open>
  The claim as stated fails twice.  With the two colliding files under one name the pass ends
  normally, logs nothing, and the replica file still differs from the source file.  With the
  log file inside the replica the pass ends normally and leaves the log file in the replica,
  where the source has nothing.
\<close>

theorem convergence_counterexample:
  "(sync_folders remdups example_clock (Suc 0) [''source''] [''replica''] [''sync.log'']
      \<lparr>fs = collision_fs, log = []\<rparr> =
      (None, \<lparr>fs = collision_fs, log = []\<rparr>) \<and>
    view collision_fs [''source'', ''f''] = Regular wang_a \<and>
    view collision_fs [''replica'', ''f''] = Regular wang_b \<and>
    wang_b \<noteq> wang_a) \<and>
   (sync_folders remdups example_clock (Suc 0) [''source''] [''replica''] [''replica'', ''sync.log'']
      \<lparr>fs = log_in_replica [] 0, log = []\<rparr> =
      (None, \<lparr>fs = log_in_replica (log_line example_clock 0 (FileRemoved [''replica'', ''sync.log'']))
                     (fst (example_clock 0)),
              log = [FileRemoved [''replica'', ''sync.log'']]\<rparr>) \<and>
    view (log_in_replica (log_line example_clock 0 (FileRemoved [''replica'', ''sync.log'']))
            (fst (example_clock 0))) [''source'', ''sync.log''] = Absent \<and>
    view (log_in_replica (log_line example_clock 0 (FileRemoved [''replica'', ''sync.log'']))
            (fst (example_clock 0))) [''replica'', ''sync.log''] =
      Regular (log_line example_clock 0 (FileRemoved [''replica'', ''sync.log''])))"
  using collision_pass [of example_clock 0] wang_differ
    log_in_replica_pass [of example_clock 0 "[]" 0 "[]"]
  by (simp add: collision_fs_def log_in_replica_def)

text \<open>
  C2, as amended.  Idempotence: for a source and a replica that are separate trees and a log
  file outside both, after a pass that ended normally a second pass, with the source as the
  first one left it and in whatever iteration order, changes nothing in the file system and
  logs nothing.  It ends normally, or, where the interpreter allows too few nested calls for
  the directories the first pass created in one piece, with \<^verbatim>\<open>RecursionError\<close>; it ends
  normally whenever the allowed depth reaches the height of the source tree.
\<close>

theorem idempotence:
  assumes "separate source replica" and "separate log_file source" and "separate log_file replica"
    and "iteration_order ord" and "iteration_order ord'"
    and "sync_folders ord clock depth source replica log_file s = (None, s1)"
    and "sync_folders ord' clock' depth' source replica log_file s1 = (r, s2)"
  shows "s2 = s1 \<and> new_ops s1 s2 = [] \<and> (r = None \<or> r = Some RecursionError) \<and>
         (0 < depth' \<and> height_at (fs s1) source \<le> depth' \<longrightarrow> r = None)"
proof -
  have rec: "reconciled source replica s s1"
    using assms(1,4,2,3,6) by (rule sync_folders_reconciled)
  have src: "view (fs s1) (source @ q) = view (fs s) (source @ q)" for q
    using sync_folders_below [OF assms(6)] assms(1,2) by (rule below_source_view)
  have "in_sync source replica (fs s1)"
    using rec src unfolding reconciled_def by (intro converged_in_sync) blast+
  from in_sync_noop [OF assms(5) this assms(7)]
  have same: "s2 = s1" and res: "view (fs s1) source = Directory \<longrightarrow> r = None \<or> r = Some RecursionError"
    by blast+
  have "view (fs s) source = Directory"
    using assms(6) by (cases depth) (auto simp: Let_def isdir_view [symmetric] dest: listdir_Inr_isdir split: sum.splits)
  with src [of "[]"] res have r: "r = None \<or> r = Some RecursionError" by simp
  have "r \<noteq> Some RecursionError" if "0 < depth'" "height_at (fs s1) source \<le> depth'"
    using recursion_depth [OF assms(1) that, where ord = ord' and s' = s2 and clock = clock'
        and log_file = log_file] assms(7) by auto
  with same r show ?thesis by auto
qed

theorem idempotence_witness:
  "separate [''source''] [''replica''] \<and> separate [''sync.log''] [''source''] \<and>
   separate [''sync.log''] [''replica''] \<and> iteration_order remdups \<and>
   sync_folders remdups example_clock (Suc 0) [''source''] [''replica''] [''sync.log'']
     \<lparr>fs = example_before, log = []\<rparr> =
     (None, \<lparr>fs = example_after example_clock,
          log = [DirectoryCreated [''replica'', ''sub''], FileRemoved [''replica'', ''c.txt'']]\<rparr>) \<and>
   (0::nat) < 2 \<and> height_at (example_after example_clock) [''source''] \<le> 2 \<and>
   sync_folders remdups example_clock 2 [''source''] [''replica''] [''sync.log'']
     \<lparr>fs = example_after example_clock,
      log = [DirectoryCreated [''replica'', ''sub''], FileRemoved [''replica'', ''c.txt'']]\<rparr> =
     (None, \<lparr>fs = example_after example_clock,
          log = [DirectoryCreated [''replica'', ''sub''], FileRemoved [''replica'', ''c.txt'']]\<rparr>)"
proof -
  let ?s1 = "\<lparr>fs = example_after example_clock,
          log = [DirectoryCreated [''replica'', ''sub''], FileRemoved [''replica'', ''c.txt'']]\<rparr>"
  have run: "sync_folders remdups example_clock (Suc 0) [''source''] [''replica''] [''sync.log'']
     \<lparr>fs = example_before, log = []\<rparr> = (None, ?s1)"
    using remdups_order by (rule example_pass)
  have h: "height_at (example_after example_clock) [''source''] \<le> 2"
    by (simp add: height_at_def example_after_def)
  obtain r s2 where run2:
    "sync_folders remdups example_clock 2 [''source''] [''replica''] [''sync.log''] ?s1 = (r, s2)"
    by (cases "sync_folders remdups example_clock 2 [''source''] [''replica''] [''sync.log''] ?s1")
  from idempotence [OF separate_example remdups_order remdups_order run run2] h
  have "s2 = ?s1 \<and> r = None" by simp
  with run2 have "sync_folders remdups example_clock 2 [''source''] [''replica''] [''sync.log''] ?s1 =
      (None, ?s1)" by simp
  with separate_example remdups_order run h show ?thesis by simp
qed

text \<open>
  The claim as stated, for every source tree and wherever the log file lies, fails twice.
  With the log file inside the replica, every pass removes the log file and logs that
  removal, which creates the file again: the second pass logs one operation.  With the
  replica inside the source, every pass copies the replica one level deeper into itself: the
  second pass logs the creation of a directory.
\<close>

theorem idempotence_counterexample:
  "(sync_folders remdups example_clock (Suc 0) [''source''] [''replica''] [''replica'', ''sync.log'']
      \<lparr>fs = log_in_replica [] 0, log = []\<rparr> =
      (None, \<lparr>fs = log_in_replica (log_line example_clock 0 (FileRemoved [''replica'', ''sync.log'']))
                     (fst (example_clock 0)),
              log = [FileRemoved [''replica'', ''sync.log'']]\<rparr>) \<and>
    sync_folders remdups example_clock (Suc 0) [''source''] [''replica''] [''replica'', ''sync.log'']
      \<lparr>fs = log_in_replica (log_line example_clock 0 (FileRemoved [''replica'', ''sync.log'']))
              (fst (example_clock 0)),
       log = [FileRemoved [''replica'', ''sync.log'']]\<rparr> =
      (None, \<lparr>fs = log_in_replica (log_line example_clock 1 (FileRemoved [''replica'', ''sync.log'']))
                     (fst (example_clock 1)),
              log = [FileRemoved [''replica'', ''sync.log''], FileRemoved [''replica'', ''sync.log'']]\<rparr>) \<and>
    fst (example_clock 1) \<noteq> fst (example_clock 0)) \<and>
   (sync_folders remdups example_clock (Suc (Suc 0)) [''s''] [''s'', ''r''] [''sync.log'']
      \<lparr>fs = inner_fs, log = []\<rparr> =
      (None, \<lparr>fs = Dir [(''s'', Dir [(''r'', Dir [(''r'', Dir [])])]),
                        (''sync.log'',
                           File (log_line example_clock 0 (DirectoryCreated [''s'', ''r'', ''r'']))
                                (fst (example_clock 0)))],
              log = [DirectoryCreated [''s'', ''r'', ''r'']]\<rparr>) \<and>
    sync_folders remdups example_clock (Suc (Suc 0)) [''s''] [''s'', ''r''] [''sync.log'']
      \<lparr>fs = Dir [(''s'', Dir [(''r'', Dir [(''r'', Dir [])])]),
                 (''sync.log'',
                    File (log_line example_clock 0 (DirectoryCreated [''s'', ''r'', ''r'']))
                         (fst (example_clock 0)))],
       log = [DirectoryCreated [''s'', ''r'', ''r'']]\<rparr> =
      (None, \<lparr>fs = Dir [(''s'', Dir [(''r'', Dir [(''r'', Dir [(''r'', Dir [])])])]),
                        (''sync.log'',
                           File (log_line example_clock 0 (DirectoryCreated [''s'', ''r'', ''r'']) @
                                 log_line example_clock 1 (DirectoryCreated [''s'', ''r'', ''r'', ''r'']))
                                (fst (example_clock 1)))],
              log = [DirectoryCreated [''s'', ''r'', ''r''],
                     DirectoryCreated [''s'', ''r'', ''r'', ''r'']]\<rparr>))"
  using log_in_replica_pass [of example_clock 0 "[]" 0 "[]"]
    log_in_replica_pass [of example_clock 0
      "log_line example_clock 0 (FileRemoved [''replica'', ''sync.log''])" "fst (example_clock 0)"
      "[FileRemoved [''replica'', ''sync.log'']]"]
    inner_pass [of example_clock "Suc 0"] inner_pass_again [of example_clock 0]
  by (simp add: example_clock_def del: sync_folders.simps)

text \<open>
  C3, as amended.  Minimality of copying: the digest \<^verbatim>\<open>calculate_md5\<close> returns for a file read in
  chunks of 4096 bytes is the MD5 digest of its bytes, whatever its modification time.  For
  a name that is a regular file on both sides before a pass over separate trees, with the log
  file outside both: if the two digests are equal, and so if the bytes are identical, no pass,
  failed or not, logs a \<^verbatim>\<open>File copied/updated\<close> record for it; a pass that ends normally logs
  exactly one when the digests differ.  A file with different bytes and the same digest is
  not copied.
\<close>

theorem minimal_copying:
  assumes "separate source replica" and "separate log_file source" and "separate log_file replica"
    and "iteration_order ord"
    and "sync_folders ord clock depth source replica log_file s = (r, s')"
    and "lookup (fs s) (source @ q) = Some (File c m)"
    and "lookup (fs s) (replica @ q) = Some (File c' m')"
  shows "calculate_md5 (fs s) (source @ q) = Inr (md5_hex c) \<and>
         calculate_md5 (fs s) (replica @ q) = Inr (md5_hex c') \<and>
         (md5_hex c' = md5_hex c \<longrightarrow> FileCopied (replica @ q) \<notin> set (new_ops s s')) \<and>
         (c' = c \<longrightarrow> FileCopied (replica @ q) \<notin> set (new_ops s s')) \<and>
         (r = None \<longrightarrow>
            count_list (new_ops s s') (FileCopied (replica @ q)) = (if md5_hex c' = md5_hex c then 0 else 1))"
proof -
  have vs: "view (fs s) (source @ q) = Regular c" "view (fs s) (replica @ q) = Regular c'"
    using assms(6,7) by (simp_all add: view_def)
  have never: "FileCopied (replica @ q) \<notin> set (new_ops s s')" if eq: "md5_hex c' = md5_hex c"
  proof
    assume "FileCopied (replica @ q) \<in> set (new_ops s s')"
    from logged_due_at [OF assms(1,4,5) this assms(2,3)] vs eq show False by auto
  qed
  have cnt: "count_list (new_ops s s') (FileCopied (replica @ q)) = (if md5_hex c' = md5_hex c then 0 else 1)"
    if ok: "r = None"
  proof -
    have run: "sync_folders ord clock depth source replica log_file s = (None, s')"
      using assms(5) ok by simp
    have q: "q \<noteq> []"
    proof
      assume "q = []"
      with assms(6) have "listdir (fs s) source = Inl (NotADirectoryError source)"
        by (simp add: listdir_def)
      with run show False by (cases depth) simp_all
    qed
    have par: "view (fs s) (replica @ butlast q) = Directory"
      using view_parent_Directory [of "fs s" "replica @ butlast q" "[last q]"] q vs(2) by simp
    show ?thesis
      using reconciled_count [OF assms(1,4,2,3) run, of "FileCopied (replica @ q)" q] q vs par by simp
  qed
  from never cnt calculate_md5_File [OF assms(6)] calculate_md5_File [OF assms(7)]
  show ?thesis by auto
qed

theorem minimal_copying_witness:
  "separate [''source''] [''replica''] \<and> separate [''sync.log''] [''source''] \<and>
   separate [''sync.log''] [''replica''] \<and> iteration_order remdups \<and>
   sync_folders remdups example_clock (Suc 0) [''source''] [''replica''] [''sync.log'']
     \<lparr>fs = example_before, log = []\<rparr> =
     (None, \<lparr>fs = example_after example_clock,
          log = [DirectoryCreated [''replica'', ''sub''], FileRemoved [''replica'', ''c.txt'']]\<rparr>) \<and>
   lookup example_before ([''source''] @ [''a.txt'']) = Some (File hello 1) \<and>
   lookup example_before ([''replica''] @ [''a.txt'']) = Some (File hello 3) \<and>
   calculate_md5 example_before ([''source''] @ [''a.txt'']) = Inr (md5_hex hello) \<and>
   count_list [DirectoryCreated [''replica'', ''sub''], FileRemoved [''replica'', ''c.txt'']]
     (FileCopied ([''replica''] @ [''a.txt''])) = 0"
proof -
  have run: "sync_folders remdups example_clock (Suc 0) [''source''] [''replica''] [''sync.log'']
     \<lparr>fs = example_before, log = []\<rparr> =
     (None, \<lparr>fs = example_after example_clock,
          log = [DirectoryCreated [''replica'', ''sub''], FileRemoved [''replica'', ''c.txt'']]\<rparr>)"
    using remdups_order by (rule example_pass)
  have h: "lookup example_before ([''source''] @ [''a.txt'']) = Some (File hello 1)"
    "lookup example_before ([''replica''] @ [''a.txt'']) = Some (File hello 3)"
    by (simp_all add: example_before_def)
  from minimal_copying [OF separate_example remdups_order run,
      where q = "[''a.txt'']" and c = hello and m = 1 and c' = hello and m' = 3] h
  have "calculate_md5 example_before ([''source''] @ [''a.txt'']) = Inr (md5_hex hello) \<and>
   count_list [DirectoryCreated [''replica'', ''sub''], FileRemoved [''replica'', ''c.txt'']]
     (FileCopied ([''replica''] @ [''a.txt''])) = 0"
    by (simp add: new_ops_def)
  with separate_example remdups_order run h show ?thesis by blast
qed

text \<open>
  The claim as stated fails: the two colliding files differ, and the pass does not copy.
\<close>

theorem minimal_copying_counterexample:
  "lookup collision_fs [''source'', ''f''] = Some (File wang_a 1) \<and>
   lookup collision_fs [''replica'', ''f''] = Some (File wang_b 2) \<and>
   wang_a \<noteq> wang_b \<and>
   FileCopied [''replica'', ''f''] \<notin>
     set (log (snd (sync_folders remdups example_clock (Suc 0) [''source''] [''replica''] [''sync.log'']
                      \<lparr>fs = collision_fs, log = []\<rparr>)))"
  using collision_pass [of example_clock 0] wang_differ by (simp add: collision_fs_def)



text \<open>
  C5, as amended.  Kind mismatch: when a name is a directory on one side and a regular file on
  the other (source and replica being separate trees, the log file outside both), the pass
  fails and leaves that replica entry, with everything beneath it, exactly as it was.  The
  program has no error of its own for this.  Where the log file can be written, the exception
  is \<^verbatim>\<open>NotADirectoryError\<close> for a mismatched entry that is a file in the replica,
  \<^verbatim>\<open>IsADirectoryError\<close> for one that is a directory in the replica (the first such entry the
  pass meets), or \<^verbatim>\<open>RecursionError\<close> when the allowed depth is less than the height of the
  source tree.
\<close>

theorem kind_mismatch_fails:
  assumes "separate source replica" and "separate log_file source" and "separate log_file replica"
    and "iteration_order ord"
    and "kinds_differ (fs s) source replica q"
    and "sync_folders ord clock depth source replica log_file s = (r, s')"
  shows "(\<exists>e. r = Some e \<and>
              (loggable (fs s) log_file \<longrightarrow>
                 e = RecursionError \<or> (\<exists>p. kind_mismatch (fs s) source replica p e)) \<and>
              (0 < depth \<and> height_at (fs s) source \<le> depth \<longrightarrow> e \<noteq> RecursionError)) \<and>
         lookup (fs s') (replica @ q) = lookup (fs s) (replica @ q)"
proof -
  from mismatch_fails [OF assms(1,4,5,6,2,3)] obtain e where
    e: "r = Some e" and keep: "lookup (fs s') (replica @ q) = lookup (fs s) (replica @ q)" by auto
  have ne: "q \<noteq> []" "view (fs s) (source @ q) \<noteq> Absent" "view (fs s) (replica @ q) \<noteq> Absent"
    using assms(5) by (auto simp: kinds_differ_def)
  have S: "view (fs s) source = Directory" and R: "view (fs s) replica = Directory"
    using ne view_parent_Directory [of "fs s" source q] view_parent_Directory [of "fs s" replica q]
    by simp_all
  have cls: "e = RecursionError \<or> (\<exists>p. kind_mismatch (fs s) source replica p e)"
    if "loggable (fs s) log_file"
    using assms(1,4) S R assms(6) [unfolded e] assms(2,3) that by (rule failure_classified)
  have "e \<noteq> RecursionError" if "0 < depth" "height_at (fs s) source \<le> depth"
    using recursion_depth [OF assms(1) that, where ord = ord and s' = s' and clock = clock
        and log_file = log_file] assms(6) e by auto
  with e cls keep show ?thesis by blast
qed

theorem kind_mismatch_fails_witness:
  "separate [''source''] [''replica''] \<and> separate [''sync.log''] [''source''] \<and>
   separate [''sync.log''] [''replica''] \<and> iteration_order remdups \<and>
   kinds_differ mismatch_fs [''source''] [''replica''] [''d''] \<and>
   loggable mismatch_fs [''sync.log''] \<and>
   (0::nat) < Suc (Suc 0) \<and> height_at mismatch_fs [''source''] \<le> Suc (Suc 0) \<and>
   fst (sync_folders remdups example_clock (Suc (Suc 0)) [''source''] [''replica''] [''sync.log'']
          \<lparr>fs = mismatch_fs, log = []\<rparr>) =
     Some (NotADirectoryError [''replica'', ''d'']) \<and>
   kind_mismatch mismatch_fs [''source''] [''replica''] [''d''] (NotADirectoryError [''replica'', ''d'']) \<and>
   lookup (fs (snd (sync_folders remdups example_clock (Suc (Suc 0)) [''source''] [''replica''] [''sync.log'']
      \<lparr>fs = mismatch_fs, log = []\<rparr>))) ([''replica''] @ [''d'']) =
     lookup mismatch_fs ([''replica''] @ [''d''])"
proof -
  have d: "kinds_differ (fs \<lparr>fs = mismatch_fs, log = []\<rparr>) [''source''] [''replica''] [''d'']"
    by (simp add: kinds_differ_def mismatch_fs_def)
  have l: "loggable mismatch_fs [''sync.log'']"
    by (simp add: loggable_def mismatch_fs_def isdir_def)
  have k: "kind_mismatch mismatch_fs [''source''] [''replica''] [''d''] (NotADirectoryError [''replica'', ''d''])"
    by (simp add: kind_mismatch_def mismatch_fs_def)
  have h: "height_at mismatch_fs [''source''] \<le> Suc (Suc 0)"
    by (simp add: height_at_def mismatch_fs_def)
  obtain r s' where run: "sync_folders remdups example_clock (Suc (Suc 0)) [''source''] [''replica'']
      [''sync.log''] \<lparr>fs = mismatch_fs, log = []\<rparr> = (r, s')"
    by (cases "sync_folders remdups example_clock (Suc (Suc 0)) [''source''] [''replica''] [''sync.log'']
                 \<lparr>fs = mismatch_fs, log = []\<rparr>")
  from kind_mismatch_fails [OF separate_example remdups_order d run]
  have "lookup (fs s') ([''replica''] @ [''d'']) = lookup mismatch_fs ([''replica''] @ [''d''])"
    by simp
  moreover have "r = Some (NotADirectoryError [''replica'', ''d''])"
    using run mismatch_pass [of example_clock 0] by (simp del: sync_folders.simps)
  ultimately show ?thesis using separate_example remdups_order d l k h run
    by (simp del: sync_folders.simps)
qed

text \<open>
  The claim names a \<^verbatim>\<open>TypeMismatchError\<close>; the exceptions that reach the caller are these.
\<close>

theorem kind_mismatch_counterexample:
  "fst (sync_folders remdups example_clock (Suc (Suc 0)) [''source''] [''replica''] [''sync.log'']
          \<lparr>fs = mismatch_fs, log = []\<rparr>) =
     Some (NotADirectoryError [''replica'', ''d'']) \<and>
   fst (sync_folders remdups example_clock (Suc (Suc 0)) [''source''] [''replica''] [''sync.log'']
          \<lparr>fs = mismatch_fs2, log = []\<rparr>) =
     Some (IsADirectoryError [''replica'', ''x''])"
  using mismatch_pass [of example_clock 0] mismatch_pass2 [of example_clock "Suc 0"]
  by (simp del: sync_folders.simps)

text \<open>
  C6.  Abort and propagate: a failure of either listing ends the pass with that error and the
  state untouched; an iteration that fails ends its loop and the pass with its error and
  with the state as that iteration left it, whatever entries were still to come; and an
  iteration fails with the error of the call that failed in it, be it the copy of a directory
  tree, the recursive pass, either hashing, the copy of a file, the removal, or the writing
  of the log record after a copy or a removal.
\<close>

theorem abort_and_propagate:
  "(listdir (fs s) source = Inl e \<longrightarrow>
      sync_folders ord clock (Suc depth) source replica log_file s = (Some e, s)) \<and>
   (listdir (fs s) source = Inr a \<and> listdir (fs s) replica = Inl e \<longrightarrow>
      sync_folders ord clock (Suc depth) source replica log_file s = (Some e, s)) \<and>
   (listdir (fs s) source = Inr a \<and> listdir (fs s) replica = Inr b \<and> ord a = xs @ x # ys \<and>
    for_each (sync_item clock (sync_folders ord clock depth) source replica log_file) xs s = (None, s1) \<and>
    sync_item clock (sync_folders ord clock depth) source replica log_file x s1 = (Some e, s2) \<longrightarrow>
      sync_folders ord clock (Suc depth) source replica log_file s = (Some e, s2)) \<and>
   (listdir (fs s) source = Inr a \<and> listdir (fs s) replica = Inr b \<and> ord b = xs @ x # ys \<and>
    for_each (sync_item clock (sync_folders ord clock depth) source replica log_file) (ord a) s = (None, s1) \<and>
    for_each (prune_item clock (ord a) replica log_file) xs s1 = (None, s2) \<and>
    prune_item clock (ord a) replica log_file x s2 = (Some e, s3) \<longrightarrow>
      sync_folders ord clock (Suc depth) source replica log_file s = (Some e, s3)) \<and>
   (isdir (fs u) (src @ [i]) \<and> \<not> path_exists (fs u) (rep @ [i]) \<and>
    copytree (src @ [i]) (rep @ [i]) (fs u) = Inl e \<longrightarrow>
      sync_item clock self src rep log_file i u = (Some e, u)) \<and>
   (isdir (fs u) (src @ [i]) \<and> path_exists (fs u) (rep @ [i]) \<and>
    self (src @ [i]) (rep @ [i]) log_file u = (Some e, u') \<longrightarrow>
      sync_item clock self src rep log_file i u = (Some e, u')) \<and>
   (\<not> isdir (fs u) (src @ [i]) \<and> path_exists (fs u) (rep @ [i]) \<and>
    calculate_md5 (fs u) (src @ [i]) = Inl e \<longrightarrow>
      sync_item clock self src rep log_file i u = (Some e, u)) \<and>
   (\<not> isdir (fs u) (src @ [i]) \<and> path_exists (fs u) (rep @ [i]) \<and>
    calculate_md5 (fs u) (src @ [i]) = Inr h \<and> calculate_md5 (fs u) (rep @ [i]) = Inl e \<longrightarrow>
      sync_item clock self src rep log_file i u = (Some e, u)) \<and>
   (\<not> isdir (fs u) (src @ [i]) \<and>
    (\<not> path_exists (fs u) (rep @ [i]) \<or>
     (\<exists>h1 h2. calculate_md5 (fs u) (src @ [i]) = Inr h1 \<and>
              calculate_md5 (fs u) (rep @ [i]) = Inr h2 \<and> h1 \<noteq> h2)) \<and>
    copy2 (src @ [i]) (rep @ [i]) (fs u) = Inl e \<longrightarrow>
      sync_item clock self src rep log_file i u = (Some e, u)) \<and>
   (i \<notin> set names \<and>
    (if isdir (fs u) (rep @ [i]) then rmtree (rep @ [i]) (fs u) else remove (rep @ [i]) (fs u)) = Inl e \<longrightarrow>
      prune_item clock names rep log_file i u = (Some e, u)) \<and>
   (isdir (fs u) (src @ [i]) \<and> \<not> path_exists (fs u) (rep @ [i]) \<and>
    copytree (src @ [i]) (rep @ [i]) (fs u) = Inr t \<and>
    log_operation clock (DirectoryCreated (rep @ [i])) log_file (u\<lparr>fs := t\<rparr>) = (Some e, u') \<longrightarrow>
      sync_item clock self src rep log_file i u = (Some e, u')) \<and>
   (\<not> isdir (fs u) (src @ [i]) \<and>
    (\<not> path_exists (fs u) (rep @ [i]) \<or>
     (\<exists>h1 h2. calculate_md5 (fs u) (src @ [i]) = Inr h1 \<and>
              calculate_md5 (fs u) (rep @ [i]) = Inr h2 \<and> h1 \<noteq> h2)) \<and>
    copy2 (src @ [i]) (rep @ [i]) (fs u) = Inr t \<and>
    log_operation clock (FileCopied (rep @ [i])) log_file (u\<lparr>fs := t\<rparr>) = (Some e, u') \<longrightarrow>
      sync_item clock self src rep log_file i u = (Some e, u')) \<and>
   (i \<notin> set names \<and>
    (if isdir (fs u) (rep @ [i]) then rmtree (rep @ [i]) (fs u) else remove (rep @ [i]) (fs u)) = Inr t \<and>
    log_operation clock
      (if isdir (fs u) (rep @ [i]) then DirectoryRemoved (rep @ [i]) else FileRemoved (rep @ [i]))
      log_file (u\<lparr>fs := t\<rparr>) = (Some e, u') \<longrightarrow>
      prune_item clock names rep log_file i u = (Some e, u'))"
proof (intro conjI impI)
  assume "listdir (fs s) source = Inl e"
  then show "sync_folders ord clock (Suc depth) source replica log_file s = (Some e, s)" by simp
next
  assume "listdir (fs s) source = Inr a \<and> listdir (fs s) replica = Inl e"
  then show "sync_folders ord clock (Suc depth) source replica log_file s = (Some e, s)" by simp
next
  assume "listdir (fs s) source = Inr a \<and> listdir (fs s) replica = Inr b \<and> ord a = xs @ x # ys \<and>
    for_each (sync_item clock (sync_folders ord clock depth) source replica log_file) xs s = (None, s1) \<and>
    sync_item clock (sync_folders ord clock depth) source replica log_file x s1 = (Some e, s2)"
  then show "sync_folders ord clock (Suc depth) source replica log_file s = (Some e, s2)"
    by (simp add: Let_def for_each_append)
next
  assume "listdir (fs s) source = Inr a \<and> listdir (fs s) replica = Inr b \<and> ord b = xs @ x # ys \<and>
    for_each (sync_item clock (sync_folders ord clock depth) source replica log_file) (ord a) s = (None, s1) \<and>
    for_each (prune_item clock (ord a) replica log_file) xs s1 = (None, s2) \<and>
    prune_item clock (ord a) replica log_file x s2 = (Some e, s3)"
  then show "sync_folders ord clock (Suc depth) source replica log_file s = (Some e, s3)"
    by (simp add: Let_def for_each_append)
next
  assume "isdir (fs u) (src @ [i]) \<and> \<not> path_exists (fs u) (rep @ [i]) \<and>
    copytree (src @ [i]) (rep @ [i]) (fs u) = Inl e"
  then show "sync_item clock self src rep log_file i u = (Some e, u)" by (simp add: sync_item_dir_new)
next
  assume "isdir (fs u) (src @ [i]) \<and> path_exists (fs u) (rep @ [i]) \<and>
    self (src @ [i]) (rep @ [i]) log_file u = (Some e, u')"
  then show "sync_item clock self src rep log_file i u = (Some e, u')" by (simp add: sync_item_dir_old)
next
  assume "\<not> isdir (fs u) (src @ [i]) \<and> path_exists (fs u) (rep @ [i]) \<and>
    calculate_md5 (fs u) (src @ [i]) = Inl e"
  then show "sync_item clock self src rep log_file i u = (Some e, u)" by (simp add: sync_item_file_old)
next
  assume "\<not> isdir (fs u) (src @ [i]) \<and> path_exists (fs u) (rep @ [i]) \<and>
    calculate_md5 (fs u) (src @ [i]) = Inr h \<and> calculate_md5 (fs u) (rep @ [i]) = Inl e"
  then show "sync_item clock self src rep log_file i u = (Some e, u)" by (simp add: sync_item_file_old)
next
  assume a: "\<not> isdir (fs u) (src @ [i]) \<and>
    (\<not> path_exists (fs u) (rep @ [i]) \<or>
     (\<exists>h1 h2. calculate_md5 (fs u) (src @ [i]) = Inr h1 \<and>
              calculate_md5 (fs u) (rep @ [i]) = Inr h2 \<and> h1 \<noteq> h2)) \<and>
    copy2 (src @ [i]) (rep @ [i]) (fs u) = Inl e"
  then have c: "do_copy clock (src @ [i]) (rep @ [i]) log_file u = (Some e, u)" by (simp add: do_copy_def)
  show "sync_item clock self src rep log_file i u = (Some e, u)"
  proof (cases "path_exists (fs u) (rep @ [i])")
    case True
    with a c show ?thesis by (auto simp: sync_item_file_old)
  next
    case False
    with a c show ?thesis by (simp add: sync_item_file_new)
  qed
next
  assume "i \<notin> set names \<and>
    (if isdir (fs u) (rep @ [i]) then rmtree (rep @ [i]) (fs u) else remove (rep @ [i]) (fs u)) = Inl e"
  then show "prune_item clock names rep log_file i u = (Some e, u)"
    by (auto simp: prune_item_def Let_def split: if_splits)
next
  assume "isdir (fs u) (src @ [i]) \<and> \<not> path_exists (fs u) (rep @ [i]) \<and>
    copytree (src @ [i]) (rep @ [i]) (fs u) = Inr t \<and>
    log_operation clock (DirectoryCreated (rep @ [i])) log_file (u\<lparr>fs := t\<rparr>) = (Some e, u')"
  then show "sync_item clock self src rep log_file i u = (Some e, u')" by (simp add: sync_item_dir_new)
next
  assume a: "\<not> isdir (fs u) (src @ [i]) \<and>
    (\<not> path_exists (fs u) (rep @ [i]) \<or>
     (\<exists>h1 h2. calculate_md5 (fs u) (src @ [i]) = Inr h1 \<and>
              calculate_md5 (fs u) (rep @ [i]) = Inr h2 \<and> h1 \<noteq> h2)) \<and>
    copy2 (src @ [i]) (rep @ [i]) (fs u) = Inr t \<and>
    log_operation clock (FileCopied (rep @ [i])) log_file (u\<lparr>fs := t\<rparr>) = (Some e, u')"
  then have c: "do_copy clock (src @ [i]) (rep @ [i]) log_file u = (Some e, u')" by (simp add: do_copy_def)
  show "sync_item clock self src rep log_file i u = (Some e, u')"
  proof (cases "path_exists (fs u) (rep @ [i])")
    case True
    with a c show ?thesis by (auto simp: sync_item_file_old)
  next
    case False
    with a c show ?thesis by (simp add: sync_item_file_new)
  qed
next
  assume "i \<notin> set names \<and>
    (if isdir (fs u) (rep @ [i]) then rmtree (rep @ [i]) (fs u) else remove (rep @ [i]) (fs u)) = Inr t \<and>
    log_operation clock
      (if isdir (fs u) (rep @ [i]) then DirectoryRemoved (rep @ [i]) else FileRemoved (rep @ [i]))
      log_file (u\<lparr>fs := t\<rparr>) = (Some e, u')"
  then show "prune_item clock names rep log_file i u = (Some e, u')"
    by (auto simp: prune_item_def Let_def split: if_splits)
qed

theorem abort_and_propagate_witness:
  "(listdir (fs \<lparr>fs = Dir [], log = []\<rparr>) [''source''] = Inl (FileNotFoundError [''source'']) \<and>
    sync_folders remdups example_clock (Suc 0) [''source''] [''replica''] [''sync.log'']
      \<lparr>fs = Dir [], log = []\<rparr> =
      (Some (FileNotFoundError [''source'']), \<lparr>fs = Dir [], log = []\<rparr>)) \<and>
   (isdir (fs \<lparr>fs = blocked_fs, log = []\<rparr>) ([''s''] @ [''d'']) \<and>
    \<not> path_exists (fs \<lparr>fs = blocked_fs, log = []\<rparr>) ([''f''] @ [''d'']) \<and>
    copytree ([''s''] @ [''d'']) ([''f''] @ [''d'']) (fs \<lparr>fs = blocked_fs, log = []\<rparr>) =
      Inl (NotADirectoryError [''f'', ''d'']) \<and>
    sync_item example_clock (sync_folders remdups example_clock 0) [''s''] [''f''] [''sync.log''] ''d''
      \<lparr>fs = blocked_fs, log = []\<rparr> =
      (Some (NotADirectoryError [''f'', ''d'']), \<lparr>fs = blocked_fs, log = []\<rparr>)) \<and>
   (\<not> isdir (fs \<lparr>fs = mismatch_fs2, log = []\<rparr>) ([''source''] @ [''x'']) \<and>
    path_exists (fs \<lparr>fs = mismatch_fs2, log = []\<rparr>) ([''replica''] @ [''x'']) \<and>
    calculate_md5 (fs \<lparr>fs = mismatch_fs2, log = []\<rparr>) ([''source''] @ [''x'']) = Inr (md5_hex hello) \<and>
    calculate_md5 (fs \<lparr>fs = mismatch_fs2, log = []\<rparr>) ([''replica''] @ [''x'']) =
      Inl (IsADirectoryError [''replica'', ''x'']) \<and>
    sync_item example_clock (sync_folders remdups example_clock 0) [''source''] [''replica''] [''sync.log'']
      ''x'' \<lparr>fs = mismatch_fs2, log = []\<rparr> =
      (Some (IsADirectoryError [''replica'', ''x'']), \<lparr>fs = mismatch_fs2, log = []\<rparr>)) \<and>
   (\<not> isdir (fs \<lparr>fs = mismatch_fs2, log = []\<rparr>) ([''source''] @ [''ghost'']) \<and>
    \<not> path_exists (fs \<lparr>fs = mismatch_fs2, log = []\<rparr>) ([''replica''] @ [''ghost'']) \<and>
    copy2 ([''source''] @ [''ghost'']) ([''replica''] @ [''ghost'']) (fs \<lparr>fs = mismatch_fs2, log = []\<rparr>) =
      Inl (FileNotFoundError [''source'', ''ghost'']) \<and>
    sync_item example_clock (sync_folders remdups example_clock 0) [''source''] [''replica''] [''sync.log'']
      ''ghost'' \<lparr>fs = mismatch_fs2, log = []\<rparr> =
      (Some (FileNotFoundError [''source'', ''ghost'']), \<lparr>fs = mismatch_fs2, log = []\<rparr>)) \<and>
   (''ghost'' \<notin> set [''x''] \<and>
    (if isdir (fs \<lparr>fs = mismatch_fs2, log = []\<rparr>) ([''replica''] @ [''ghost''])
     then rmtree ([''replica''] @ [''ghost'']) (fs \<lparr>fs = mismatch_fs2, log = []\<rparr>)
     else remove ([''replica''] @ [''ghost'']) (fs \<lparr>fs = mismatch_fs2, log = []\<rparr>)) =
      Inl (FileNotFoundError [''replica'', ''ghost'']) \<and>
    prune_item example_clock [''x''] [''replica''] [''sync.log''] ''ghost'' \<lparr>fs = mismatch_fs2, log = []\<rparr> =
      (Some (FileNotFoundError [''replica'', ''ghost'']), \<lparr>fs = mismatch_fs2, log = []\<rparr>)) \<and>
   (\<not> isdir (fs \<lparr>fs = one_file_fs, log = []\<rparr>) ([''source''] @ [''f'']) \<and>
    \<not> path_exists (fs \<lparr>fs = one_file_fs, log = []\<rparr>) ([''replica''] @ [''f'']) \<and>
    copy2 ([''source''] @ [''f'']) ([''replica''] @ [''f'']) (fs \<lparr>fs = one_file_fs, log = []\<rparr>) =
      Inr (Dir [(''source'', Dir [(''f'', File hello 1)]), (''replica'', Dir [(''f'', File hello 1)])]) \<and>
    log_operation example_clock (FileCopied ([''replica''] @ [''f''])) [''logs'', ''sync.log'']
      (\<lparr>fs = one_file_fs, log = []\<rparr>\<lparr>fs :=
          Dir [(''source'', Dir [(''f'', File hello 1)]), (''replica'', Dir [(''f'', File hello 1)])]\<rparr>) =
      (Some (FileNotFoundError [''logs'', ''sync.log'']),
       \<lparr>fs = Dir [(''source'', Dir [(''f'', File hello 1)]), (''replica'', Dir [(''f'', File hello 1)])],
        log = [FileCopied [''replica'', ''f'']]\<rparr>) \<and>
    sync_item example_clock (sync_folders remdups example_clock 0) [''source''] [''replica'']
      [''logs'', ''sync.log''] ''f'' \<lparr>fs = one_file_fs, log = []\<rparr> =
      (Some (FileNotFoundError [''logs'', ''sync.log'']),
       \<lparr>fs = Dir [(''source'', Dir [(''f'', File hello 1)]), (''replica'', Dir [(''f'', File hello 1)])],
        log = [FileCopied [''replica'', ''f'']]\<rparr>) \<and>
    sync_folders remdups example_clock (Suc 0) [''source''] [''replica''] [''logs'', ''sync.log'']
      \<lparr>fs = one_file_fs, log = []\<rparr> =
      (Some (FileNotFoundError [''logs'', ''sync.log'']),
       \<lparr>fs = Dir [(''source'', Dir [(''f'', File hello 1)]), (''replica'', Dir [(''f'', File hello 1)])],
        log = [FileCopied [''replica'', ''f'']]\<rparr>))"
proof -
  have h1: "listdir (fs \<lparr>fs = Dir [], log = []\<rparr>) [''source''] = Inl (FileNotFoundError [''source''])"
    by (simp add: listdir_def no_entry_def)
  have c1: "sync_folders remdups example_clock (Suc 0) [''source''] [''replica''] [''sync.log'']
      \<lparr>fs = Dir [], log = []\<rparr> =
      (Some (FileNotFoundError [''source'']), \<lparr>fs = Dir [], log = []\<rparr>)"
    by (rule abort_and_propagate [THEN conjunct1, THEN mp, OF h1])
  have h2: "isdir (fs \<lparr>fs = blocked_fs, log = []\<rparr>) ([''s''] @ [''d'']) \<and>
    \<not> path_exists (fs \<lparr>fs = blocked_fs, log = []\<rparr>) ([''f''] @ [''d'']) \<and>
    copytree ([''s''] @ [''d'']) ([''f''] @ [''d'']) (fs \<lparr>fs = blocked_fs, log = []\<rparr>) =
      Inl (NotADirectoryError [''f'', ''d''])"
    by (simp add: blocked_fs_def isdir_def path_exists_def copytree_def)
  have c2: "sync_item example_clock (sync_folders remdups example_clock 0) [''s''] [''f''] [''sync.log''] ''d''
      \<lparr>fs = blocked_fs, log = []\<rparr> =
      (Some (NotADirectoryError [''f'', ''d'']), \<lparr>fs = blocked_fs, log = []\<rparr>)"
    by (rule abort_and_propagate [THEN conjunct2, THEN conjunct2, THEN conjunct2, THEN conjunct2, THEN conjunct1, THEN mp, OF h2])
  have h3: "\<not> isdir (fs \<lparr>fs = mismatch_fs2, log = []\<rparr>) ([''source''] @ [''x'']) \<and>
    path_exists (fs \<lparr>fs = mismatch_fs2, log = []\<rparr>) ([''replica''] @ [''x'']) \<and>
    calculate_md5 (fs \<lparr>fs = mismatch_fs2, log = []\<rparr>) ([''source''] @ [''x'']) = Inr (md5_hex hello) \<and>
    calculate_md5 (fs \<lparr>fs = mismatch_fs2, log = []\<rparr>) ([''replica''] @ [''x'']) =
      Inl (IsADirectoryError [''replica'', ''x''])"
    by (simp add: mismatch_fs2_def isdir_def path_exists_def calculate_md5_File calculate_md5_Dir)
  have c3: "sync_item example_clock (sync_folders remdups example_clock 0) [''source''] [''replica''] [''sync.log'']
      ''x'' \<lparr>fs = mismatch_fs2, log = []\<rparr> =
      (Some (IsADirectoryError [''replica'', ''x'']), \<lparr>fs = mismatch_fs2, log = []\<rparr>)"
    by (rule abort_and_propagate [THEN conjunct2, THEN conjunct2, THEN conjunct2, THEN conjunct2, THEN conjunct2, THEN conjunct2, THEN conjunct2, THEN conjunct1, THEN mp, OF h3])
  have h4: "\<not> isdir (fs \<lparr>fs = mismatch_fs2, log = []\<rparr>) ([''source''] @ [''ghost'']) \<and>
    (\<not> path_exists (fs \<lparr>fs = mismatch_fs2, log = []\<rparr>) ([''replica''] @ [''ghost'']) \<or>
     (\<exists>h1 h2. calculate_md5 (fs \<lparr>fs = mismatch_fs2, log = []\<rparr>) ([''source''] @ [''ghost'']) = Inr h1 \<and>
              calculate_md5 (fs \<lparr>fs = mismatch_fs2, log = []\<rparr>) ([''replica''] @ [''ghost'']) = Inr h2 \<and>
              h1 \<noteq> h2)) \<and>
    copy2 ([''source''] @ [''ghost'']) ([''replica''] @ [''ghost'']) (fs \<lparr>fs = mismatch_fs2, log = []\<rparr>) =
      Inl (FileNotFoundError [''source'', ''ghost''])"
    by (simp add: mismatch_fs2_def isdir_def path_exists_def copy2_def open_rb_def no_entry_def)
  have c4: "sync_item example_clock (sync_folders remdups example_clock 0) [''source''] [''replica''] [''sync.log'']
      ''ghost'' \<lparr>fs = mismatch_fs2, log = []\<rparr> =
      (Some (FileNotFoundError [''source'', ''ghost'']), \<lparr>fs = mismatch_fs2, log = []\<rparr>)"
    by (rule abort_and_propagate [THEN conjunct2, THEN conjunct2, THEN conjunct2, THEN conjunct2, THEN conjunct2, THEN conjunct2, THEN conjunct2, THEN conjunct2, THEN conjunct1, THEN mp, OF h4])
  have h5: "''ghost'' \<notin> set [''x''] \<and>
    (if isdir (fs \<lparr>fs = mismatch_fs2, log = []\<rparr>) ([''replica''] @ [''ghost''])
     then rmtree ([''replica''] @ [''ghost'']) (fs \<lparr>fs = mismatch_fs2, log = []\<rparr>)
     else remove ([''replica''] @ [''ghost'']) (fs \<lparr>fs = mismatch_fs2, log = []\<rparr>)) =
      Inl (FileNotFoundError [''replica'', ''ghost''])"
    by (simp add: mismatch_fs2_def isdir_def remove_def no_entry_def)
  have c5: "prune_item example_clock [''x''] [''replica''] [''sync.log''] ''ghost'' \<lparr>fs = mismatch_fs2, log = []\<rparr> =
      (Some (FileNotFoundError [''replica'', ''ghost'']), \<lparr>fs = mismatch_fs2, log = []\<rparr>)"
    by (rule abort_and_propagate [THEN conjunct2, THEN conjunct2, THEN conjunct2, THEN conjunct2, THEN conjunct2, THEN conjunct2, THEN conjunct2, THEN conjunct2, THEN conjunct2, THEN conjunct1, THEN mp, OF h5])
  have h4': "\<not> isdir (fs \<lparr>fs = mismatch_fs2, log = []\<rparr>) ([''source''] @ [''ghost'']) \<and>
    \<not> path_exists (fs \<lparr>fs = mismatch_fs2, log = []\<rparr>) ([''replica''] @ [''ghost'']) \<and>
    copy2 ([''source''] @ [''ghost'']) ([''replica''] @ [''ghost'']) (fs \<lparr>fs = mismatch_fs2, log = []\<rparr>) =
      Inl (FileNotFoundError [''source'', ''ghost''])"
    by (simp add: mismatch_fs2_def isdir_def path_exists_def copy2_def open_rb_def no_entry_def)
  let ?t = "Dir [(''source'', Dir [(''f'', File hello 1)]), (''replica'', Dir [(''f'', File hello 1)])]"
  let ?u = "\<lparr>fs = ?t, log = [FileCopied [''replica'', ''f'']]\<rparr>"
  have h6a: "\<not> isdir (fs \<lparr>fs = one_file_fs, log = []\<rparr>) ([''source''] @ [''f''])"
    "\<not> path_exists (fs \<lparr>fs = one_file_fs, log = []\<rparr>) ([''replica''] @ [''f''])"
    "copy2 ([''source''] @ [''f'']) ([''replica''] @ [''f'']) (fs \<lparr>fs = one_file_fs, log = []\<rparr>) = Inr ?t"
    by (simp_all add: one_file_fs_def isdir_def path_exists_def copy2_def open_rb_def)
  have h6b: "log_operation example_clock (FileCopied ([''replica''] @ [''f''])) [''logs'', ''sync.log'']
      (\<lparr>fs = one_file_fs, log = []\<rparr>\<lparr>fs := ?t\<rparr>) = (Some (FileNotFoundError [''logs'', ''sync.log'']), ?u)"
    by (simp add: log_operation_eval append_to_def isdir_def no_entry_def)
  have h6: "\<not> isdir (fs \<lparr>fs = one_file_fs, log = []\<rparr>) ([''source''] @ [''f'']) \<and>
    (\<not> path_exists (fs \<lparr>fs = one_file_fs, log = []\<rparr>) ([''replica''] @ [''f'']) \<or>
     (\<exists>h1 h2. calculate_md5 (fs \<lparr>fs = one_file_fs, log = []\<rparr>) ([''source''] @ [''f'']) = Inr h1 \<and>
              calculate_md5 (fs \<lparr>fs = one_file_fs, log = []\<rparr>) ([''replica''] @ [''f'']) = Inr h2 \<and>
              h1 \<noteq> h2)) \<and>
    copy2 ([''source''] @ [''f'']) ([''replica''] @ [''f'']) (fs \<lparr>fs = one_file_fs, log = []\<rparr>) = Inr ?t \<and>
    log_operation example_clock (FileCopied ([''replica''] @ [''f''])) [''logs'', ''sync.log'']
      (\<lparr>fs = one_file_fs, log = []\<rparr>\<lparr>fs := ?t\<rparr>) = (Some (FileNotFoundError [''logs'', ''sync.log'']), ?u)"
    using h6a h6b by (simp only: simp_thms)
  have c6: "sync_item example_clock (sync_folders remdups example_clock 0) [''source''] [''replica'']
      [''logs'', ''sync.log''] ''f'' \<lparr>fs = one_file_fs, log = []\<rparr> =
      (Some (FileNotFoundError [''logs'', ''sync.log'']), ?u)"
    by (rule abort_and_propagate [THEN conjunct2, THEN conjunct2, THEN conjunct2, THEN conjunct2, THEN conjunct2, THEN conjunct2, THEN conjunct2, THEN conjunct2, THEN conjunct2, THEN conjunct2, THEN conjunct2, THEN conjunct1, THEN mp, OF h6])
  have h7: "listdir (fs \<lparr>fs = one_file_fs, log = []\<rparr>) [''source''] = Inr [''f''] \<and>
    listdir (fs \<lparr>fs = one_file_fs, log = []\<rparr>) [''replica''] = Inr [] \<and>
    remdups [''f''] = [] @ ''f'' # [] \<and>
    for_each (sync_item example_clock (sync_folders remdups example_clock 0) [''source''] [''replica'']
        [''logs'', ''sync.log'']) [] \<lparr>fs = one_file_fs, log = []\<rparr> = (None, \<lparr>fs = one_file_fs, log = []\<rparr>) \<and>
    sync_item example_clock (sync_folders remdups example_clock 0) [''source''] [''replica'']
      [''logs'', ''sync.log''] ''f'' \<lparr>fs = one_file_fs, log = []\<rparr> =
      (Some (FileNotFoundError [''logs'', ''sync.log'']), ?u)"
    using c6 by (simp add: one_file_fs_def listdir_def)
  have c7: "sync_folders remdups example_clock (Suc 0) [''source''] [''replica''] [''logs'', ''sync.log'']
      \<lparr>fs = one_file_fs, log = []\<rparr> = (Some (FileNotFoundError [''logs'', ''sync.log'']), ?u)"
    by (rule abort_and_propagate [THEN conjunct2, THEN conjunct2, THEN conjunct1, THEN mp, OF h7])
  show ?thesis
    by (intro conjI) (use h1 c1 h2 c2 h3 c3 h4' c4 h5 c5 h6a h6b c6 c7 in \<open>simp_all only: simp_thms\<close>)
qed

text \<open>
  C7, as amended.  Deletion: for a source and a replica that are separate trees and a log file
  outside both, an entry that the replica holds and the source lacks, in a directory the
  source has, is gone after a pass that ends normally, and the pass logged exactly one removal
  record for it: \<^verbatim>\<open>Directory removed\<close> for a directory, \<^verbatim>\<open>File removed\<close> otherwise, and
  none of the other kind.
\<close>

theorem deletion:
  assumes "separate source replica" and "separate log_file source" and "separate log_file replica"
    and "iteration_order ord"
    and "sync_folders ord clock depth source replica log_file s = (None, s')"
    and "q \<noteq> []" and "view (fs s) (replica @ q) \<noteq> Absent" and "view (fs s) (source @ q) = Absent"
    and "view (fs s) (source @ butlast q) = Directory"
  shows "view (fs s') (replica @ q) = Absent \<and>
         count_list (new_ops s s') (DirectoryRemoved (replica @ q)) =
           (if view (fs s) (replica @ q) = Directory then 1 else 0) \<and>
         count_list (new_ops s s') (FileRemoved (replica @ q)) =
           (if view (fs s) (replica @ q) = Directory then 0 else 1)"
proof -
  have 1: "view (fs s') (replica @ q) = Absent"
    using reconciled_view [OF assms(1,4,2,3,5), of q] assms(8) by simp
  have 2: "count_list (new_ops s s') (DirectoryRemoved (replica @ q)) =
           (if view (fs s) (replica @ q) = Directory then 1 else 0)"
    using reconciled_count [OF assms(1,4,2,3,5), of "DirectoryRemoved (replica @ q)" q] assms(6-9)
    by simp
  have 3: "count_list (new_ops s s') (FileRemoved (replica @ q)) =
           (if view (fs s) (replica @ q) = Directory then 0 else 1)"
    using reconciled_count [OF assms(1,4,2,3,5), of "FileRemoved (replica @ q)" q] assms(6-9)
    by (cases "view (fs s) (replica @ q)") simp_all
  from 1 2 3 show ?thesis by blast
qed

theorem deletion_witness:
  "separate [''source''] [''replica''] \<and> separate [''sync.log''] [''source''] \<and>
   separate [''sync.log''] [''replica''] \<and> iteration_order remdups \<and>
   sync_folders remdups example_clock (Suc 0) [''source''] [''replica''] [''sync.log'']
     \<lparr>fs = example_before, log = []\<rparr> =
     (None, \<lparr>fs = example_after example_clock,
          log = [DirectoryCreated [''replica'', ''sub''], FileRemoved [''replica'', ''c.txt'']]\<rparr>) \<and>
   [''c.txt''] \<noteq> [] \<and>
   view example_before ([''replica''] @ [''c.txt'']) \<noteq> Absent \<and>
   view example_before ([''source''] @ [''c.txt'']) = Absent \<and>
   view example_before ([''source''] @ butlast [''c.txt'']) = Directory \<and>
   view (example_after example_clock) ([''replica''] @ [''c.txt'']) = Absent \<and>
   count_list [DirectoryCreated [''replica'', ''sub''], FileRemoved [''replica'', ''c.txt'']]
     (DirectoryRemoved ([''replica''] @ [''c.txt''])) = 0 \<and>
   count_list [DirectoryCreated [''replica'', ''sub''], FileRemoved [''replica'', ''c.txt'']]
     (FileRemoved ([''replica''] @ [''c.txt''])) = 1"
proof -
  have run: "sync_folders remdups example_clock (Suc 0) [''source''] [''replica''] [''sync.log'']
     \<lparr>fs = example_before, log = []\<rparr> =
     (None, \<lparr>fs = example_after example_clock,
          log = [DirectoryCreated [''replica'', ''sub''], FileRemoved [''replica'', ''c.txt'']]\<rparr>)"
    using remdups_order by (rule example_pass)
  have h: "[''c.txt''] \<noteq> []" "view example_before ([''replica''] @ [''c.txt'']) \<noteq> Absent"
    "view example_before ([''source''] @ [''c.txt'']) = Absent"
    "view example_before ([''source''] @ butlast [''c.txt'']) = Directory"
    by (simp_all add: example_before_def)
  from deletion [OF separate_example remdups_order run, where q = "[''c.txt'']"] h
  have "view (example_after example_clock) ([''replica''] @ [''c.txt'']) = Absent \<and>
   count_list [DirectoryCreated [''replica'', ''sub''], FileRemoved [''replica'', ''c.txt'']]
     (DirectoryRemoved ([''replica''] @ [''c.txt''])) = 0 \<and>
   count_list [DirectoryCreated [''replica'', ''sub''], FileRemoved [''replica'', ''c.txt'']]
     (FileRemoved ([''replica''] @ [''c.txt''])) = 1"
    by (simp add: new_ops_def)
  with separate_example remdups_order run h show ?thesis by blast
qed

text \<open>
  The claim as stated fails where the log file lies inside the replica: the log file is an
  entry of the replica that the source lacks, the pass ends normally and removes it, and the
  record of that removal creates it again, so that the entry is present after the pass.
\<close>

theorem deletion_counterexample:
  "sync_folders remdups example_clock (Suc 0) [''source''] [''replica''] [''replica'', ''sync.log'']
     \<lparr>fs = log_in_replica [] 0, log = []\<rparr> =
     (None, \<lparr>fs = log_in_replica (log_line example_clock 0 (FileRemoved [''replica'', ''sync.log'']))
                    (fst (example_clock 0)),
             log = [FileRemoved [''replica'', ''sync.log'']]\<rparr>) \<and>
   view (log_in_replica [] 0) [''replica'', ''sync.log''] = Regular [] \<and>
   view (log_in_replica [] 0) [''source'', ''sync.log''] = Absent \<and>
   view (log_in_replica [] 0) [''source''] = Directory \<and>
   view (log_in_replica (log_line example_clock 0 (FileRemoved [''replica'', ''sync.log'']))
           (fst (example_clock 0))) [''replica'', ''sync.log''] \<noteq> Absent"
  using log_in_replica_pass [of example_clock 0 "[]" 0 "[]"]
  by (simp add: log_in_replica_def)

text \<open>
  C8, as amended.  The frame of a pass, whether it ends normally or not, for every source,
  replica and log file path.  Every path that is not strictly beneath the replica path and is
  not the log file shows the same entry afterwards; the log file, unless it was a directory,
  may have become or grown as a regular file; every subtree that is separate from the replica
  path and from the log file is the same, modification times included; and every record
  added to the log names a path strictly beneath the replica path.  When the source is
  separate from the replica and from the log file, the subtree at every path at or beneath
  the source path is the same afterwards.
\<close>

theorem source_untouched:
  assumes "sync_folders ord clock depth source replica log_file s = (r, s')"
  shows "(\<forall>q. \<not> strict_prefix replica q \<and> q \<noteq> log_file \<longrightarrow> view (fs s') q = view (fs s) q) \<and>
         (\<not> strict_prefix replica log_file \<longrightarrow>
            view (fs s') log_file = view (fs s) log_file \<or>
            (view (fs s) log_file \<noteq> Directory \<and> (\<exists>c. view (fs s') log_file = Regular c))) \<and>
         (\<forall>q. separate replica q \<and> separate log_file q \<longrightarrow> lookup (fs s') q = lookup (fs s) q) \<and>
         (\<forall>m \<in> set (new_ops s s'). strict_prefix replica (op_path m)) \<and>
         log s' = log s @ new_ops s s' \<and>
         (separate source replica \<and> separate log_file source \<longrightarrow>
            (\<forall>q. lookup (fs s') (source @ q) = lookup (fs s) (source @ q)))"
proof -
  have b: "below log_file replica s s'" using assms by (rule sync_folders_below)
  have 1: "\<forall>q. \<not> strict_prefix replica q \<and> q \<noteq> log_file \<longrightarrow> view (fs s') q = view (fs s) q"
    using b by (auto simp: below_def intro: same_or_logged_view)
  have 2: "\<not> strict_prefix replica log_file \<longrightarrow>
            view (fs s') log_file = view (fs s) log_file \<or>
            (view (fs s) log_file \<noteq> Directory \<and> (\<exists>c. view (fs s') log_file = Regular c))"
    using b by (auto simp: below_def same_or_logged_def)
  have 3: "\<forall>q. separate replica q \<and> separate log_file q \<longrightarrow> lookup (fs s') q = lookup (fs s) q"
    using b by (auto simp: below_def separate_def)
  have 4: "\<forall>m \<in> set (new_ops s s'). strict_prefix replica (op_path m)"
    using below_ops [OF b] by blast
  have 5: "log s' = log s @ new_ops s s'" using b by (rule below_log)
  have 6: "separate source replica \<and> separate log_file source \<longrightarrow>
            (\<forall>q. lookup (fs s') (source @ q) = lookup (fs s) (source @ q))"
    using below_source [OF b] by blast
  from 1 2 3 4 5 6 show ?thesis by blast
qed

theorem source_untouched_witness:
  "sync_folders remdups example_clock (Suc (Suc 0)) [''source''] [''replica''] [''sync.log'']
     \<lparr>fs = mismatch_fs, log = []\<rparr> =
     (Some (NotADirectoryError [''replica'', ''d'']),
      \<lparr>fs = Dir [(''source'', Dir [(''a.txt'', File hello 1), (''d'', Dir [])]),
                 (''replica'', Dir [(''d'', File [0x31] 5), (''a.txt'', File hello 1)]),
                 (''sync.log'',
                    File (log_line example_clock 0 (FileCopied [''replica'', ''a.txt'']))
                         (fst (example_clock 0)))],
       log = [FileCopied [''replica'', ''a.txt'']]\<rparr>) \<and>
   separate [''source''] [''replica''] \<and> separate [''sync.log''] [''source''] \<and>
   \<not> strict_prefix [''replica''] [''sync.log''] \<and>
   \<not> strict_prefix [''replica''] [''source'', ''a.txt''] \<and> [''source'', ''a.txt''] \<noteq> [''sync.log''] \<and>
   separate [''replica''] [''source'', ''d''] \<and> separate [''sync.log''] [''source'', ''d''] \<and>
   view (Dir [(''source'', Dir [(''a.txt'', File hello 1), (''d'', Dir [])]),
              (''replica'', Dir [(''d'', File [0x31] 5), (''a.txt'', File hello 1)]),
              (''sync.log'',
                 File (log_line example_clock 0 (FileCopied [''replica'', ''a.txt'']))
                      (fst (example_clock 0)))]) [''source'', ''a.txt''] =
     view mismatch_fs [''source'', ''a.txt''] \<and>
   lookup (Dir [(''source'', Dir [(''a.txt'', File hello 1), (''d'', Dir [])]),
              (''replica'', Dir [(''d'', File [0x31] 5), (''a.txt'', File hello 1)]),
              (''sync.log'',
                 File (log_line example_clock 0 (FileCopied [''replica'', ''a.txt'']))
                      (fst (example_clock 0)))]) ([''source''] @ []) =
     lookup mismatch_fs ([''source''] @ [])"
proof -
  let ?t = "Dir [(''source'', Dir [(''a.txt'', File hello 1), (''d'', Dir [])]),
              (''replica'', Dir [(''d'', File [0x31] 5), (''a.txt'', File hello 1)]),
              (''sync.log'',
                 File (log_line example_clock 0 (FileCopied [''replica'', ''a.txt'']))
                      (fst (example_clock 0)))]"
  note run = mismatch_pass [of example_clock 0]
  have np: "\<not> strict_prefix [''replica''] [''sync.log'']"
    "\<not> strict_prefix [''replica''] [''source'', ''a.txt'']" "[''source'', ''a.txt''] \<noteq> [''sync.log'']"
    "separate [''replica''] [''source'', ''d'']" "separate [''sync.log''] [''source'', ''d'']"
    by (simp_all add: separate_def)
  note inst = source_untouched [OF run]
  have a: "view ?t [''source'', ''a.txt''] = view mismatch_fs [''source'', ''a.txt'']"
    using inst [THEN conjunct1, THEN spec, of "[''source'', ''a.txt'']"] np by simp
  have "\<forall>q. lookup ?t ([''source''] @ q) = lookup mismatch_fs ([''source''] @ q)"
    using inst [THEN conjunct2, THEN conjunct2, THEN conjunct2, THEN conjunct2, THEN conjunct2]
      separate_example(1,2) by (simp del: lookup.simps append.simps)
  then have b: "lookup ?t ([''source''] @ []) = lookup mismatch_fs ([''source''] @ [])" ..
  from run separate_example(1,2) np a b show ?thesis by (simp only: simp_thms)
qed

text \<open>
  The claim as stated, for every input, fails twice.  With the source inside the replica the
  pass ends normally and has removed the source directory.  With the log file inside the
  source the pass ends normally and has written the log file into the source directory.
\<close>

theorem source_untouched_counterexample:
  "(sync_folders remdups example_clock (Suc 0) [''r'', ''s''] [''r''] [''sync.log'']
      \<lparr>fs = nested_fs, log = []\<rparr> =
      (None, \<lparr>fs = Dir [(''r'', Dir [(''x'', File [0x31] 0)]),
                        (''sync.log'',
                           File (log_line example_clock 0 (FileCopied [''r'', ''x'']) @
                                 log_line example_clock 1 (DirectoryRemoved [''r'', ''s'']))
                                (fst (example_clock 1)))],
              log = [FileCopied [''r'', ''x''], DirectoryRemoved [''r'', ''s'']]\<rparr>) \<and>
    view nested_fs [''r'', ''s''] = Directory \<and>
    view nested_fs [''r'', ''s'', ''x''] = Regular [0x31] \<and>
    view (Dir [(''r'', Dir [(''x'', File [0x31] 0)]),
               (''sync.log'',
                  File (log_line example_clock 0 (FileCopied [''r'', ''x'']) @
                        log_line example_clock 1 (DirectoryRemoved [''r'', ''s'']))
                       (fst (example_clock 1)))]) [''r'', ''s''] = Absent) \<and>
   (sync_folders remdups example_clock (Suc 0) [''source''] [''replica''] [''source'', ''sync.log'']
      \<lparr>fs = one_file_fs, log = []\<rparr> =
      (None, \<lparr>fs = Dir [(''source'', Dir [(''f'', File hello 1),
                                           (''sync.log'',
                                              File (log_line example_clock 0 (FileCopied [''replica'', ''f'']))
                                                   (fst (example_clock 0)))]),
                        (''replica'', Dir [(''f'', File hello 1)])],
              log = [FileCopied [''replica'', ''f'']]\<rparr>) \<and>
    view one_file_fs [''source'', ''sync.log''] = Absent \<and>
    view (Dir [(''source'', Dir [(''f'', File hello 1),
                                 (''sync.log'',
                                    File (log_line example_clock 0 (FileCopied [''replica'', ''f'']))
                                         (fst (example_clock 0)))]),
               (''replica'', Dir [(''f'', File hello 1)])]) [''source'', ''sync.log''] =
      Regular (log_line example_clock 0 (FileCopied [''replica'', ''f''])))"
  using nested_pass [of example_clock 0] log_in_source_pass [of example_clock 0]
  by (simp add: nested_fs_def one_file_fs_def)

text \<open>
  C9.  The example scenario: for \<^verbatim>\<open>source = {a.txt="hello", sub/b.txt="x"}\<close> and
  \<^verbatim>\<open>replica = {a.txt="hello", c.txt="old"}\<close>, with the log file beside them, one pass, in
  whatever order the two sets are iterated and whatever the clock shows, ends normally; it
  leaves \<^verbatim>\<open>a.txt\<close> in the replica as it was (its own modification time included), creates
  \<^verbatim>\<open>sub\<close> with \<^verbatim>\<open>b.txt\<close> in it, removes \<^verbatim>\<open>c.txt\<close>, leaves the source alone, and logs
  exactly two records, on the console and in the log file: the creation of \<^verbatim>\<open>sub\<close> (none
  for \<^verbatim>\<open>b.txt\<close>) and the removal of \<^verbatim>\<open>c.txt\<close>.
\<close>

theorem example_scenario:
  assumes "iteration_order ord"
  shows "sync_folders ord clock (Suc depth) [''source''] [''replica''] [''sync.log'']
           \<lparr>fs = example_before, log = []\<rparr> =
     (None, \<lparr>fs = example_after clock,
          log = [DirectoryCreated [''replica'', ''sub''], FileRemoved [''replica'', ''c.txt'']]\<rparr>)"
  using assms by (rule example_pass)

theorem example_scenario_witness:
  "iteration_order remdups \<and>
   sync_folders remdups example_clock (Suc 0) [''source''] [''replica''] [''sync.log'']
     \<lparr>fs = example_before, log = []\<rparr> =
     (None, \<lparr>fs = example_after example_clock,
          log = [DirectoryCreated [''replica'', ''sub''], FileRemoved [''replica'', ''c.txt'']]\<rparr>)"
  using example_scenario [OF remdups_order, of example_clock 0] remdups_order by simp

text \<open>
  C10.  Termination: \<open>sync_folders\<close> is defined by recursion on the number of nested calls
  still allowed, so every call returns; a recursive call is made only for a name that is a
  directory under the current source directory, and between separate trees, wherever the log
  file lies, the nesting never goes deeper than the source tree is high: with an allowed
  depth of at least that height the pass never ends with \<^verbatim>\<open>RecursionError\<close>.
\<close>

theorem recursion_bounded_by_height:
  assumes "separate source replica" and "0 < depth" and "height_at (fs s) source \<le> depth"
  shows "fst (sync_folders ord clock depth source replica log_file s) \<noteq> Some RecursionError"
  using recursion_depth [OF assms, where ord = ord and clock = clock and log_file = log_file
      and s' = "snd (sync_folders ord clock depth source replica log_file s)"]
  by (metis prod.collapse)

theorem recursion_bounded_by_height_witness:
  "separate [''source''] [''replica''] \<and> (0::nat) < 2 \<and>
   height_at example_before [''source''] = 2 \<and>
   fst (sync_folders remdups example_clock 2 [''source''] [''replica''] [''sync.log'']
          \<lparr>fs = example_before, log = []\<rparr>) \<noteq>
     Some RecursionError"
proof -
  have h: "height_at example_before [''source''] = 2"
    by (simp add: height_at_def example_before_def)
  have "fst (sync_folders remdups example_clock 2 [''source''] [''replica''] [''sync.log'']
          \<lparr>fs = example_before, log = []\<rparr>) \<noteq>
     Some RecursionError"
    using recursion_bounded_by_height [OF separate_example(1), where depth = 2 and
        s = "\<lparr>fs = example_before, log = []\<rparr>" and ord = remdups and clock = example_clock
        and log_file = "[''sync.log'']"] h
    by (simp del: sync_folders.simps)
  with separate_example(1) h show ?thesis by simp
qed

end
